theory Spec2Isabelle
  imports Main "HOL-Library.Word"
begin

unbundle bit_operations_syntax

section \<open>The cache simulator of csim.c\<close>

text \<open>
  The simulator keeps three kinds of global state: the geometry \<open>s\<close>, \<open>E\<close>, \<open>b\<close> read from
  the command line, the two-dimensional array \<open>cache\<close> of lines, and the statistics
  \<open>stats\<close>. The model passes the geometry as a value of type \<open>config\<close> and threads the
  array and the statistics through every function as a value of type \<open>sim\<close>.

  Integer types. \<open>long\<close> and \<open>unsigned long\<close> are 64 bits wide, \<open>int\<close> is 32 bits wide.
  Addresses, tags and the set index take part in shifts and masks and are \<open>64 word\<close>;
  the right shift of a \<open>long\<close> is the arithmetic one (\<open>signed_drop_bit\<close>). The five
  statistics are \<open>unsigned long\<close> and are \<open>64 word\<close>, so that \<open>+\<close> and \<open>-\<close> wrap as in C.
  The geometry and the field \<open>valid\<close> are \<open>int\<close>. The field \<open>lastUsed\<close> is a \<open>long\<close>; it
  is only set to \<open>0\<close>, incremented and compared, and is an \<open>int\<close> that stays in the range
  of a \<open>long\<close>, with the wrap-around of the increment written out.

  Undefined behaviour. A shift whose count is negative or not smaller than the width of
  the shifted type, a left shift of an \<open>int\<close> whose result does not fit, and the
  conversion of a \<open>double\<close> outside the range of \<open>int\<close> are undefined in C. The model
  returns an \<open>error\<close> there instead of a value. The overflow of \<open>lastUsed++\<close> is the one
  exception: it is modelled by the wrap-around of the machine, see \<open>incr_long\<close>.
\<close>

datatype error = InvalidInput | UndefinedShift | UndefinedConversion

record cacheLine =
  valid :: int
  tag :: "64 word"
  dirty :: "64 word"
  lastUsed :: int

text \<open>
  Modelled from the spec: the type \<open>csim_stats_t\<close> is declared in \<open>cache.h\<close>, which is
  not among the sources. The spec lists its five fields; csim.c converts every amount it
  adds to them to \<open>unsigned long\<close>, which is the width taken here.
\<close>

record csim_stats_t =
  hits :: "64 word"
  misses :: "64 word"
  evictions :: "64 word"
  dirty_bytes :: "64 word"
  dirty_evictions :: "64 word"

text \<open>
  The globals \<open>s\<close>, \<open>E\<close> and \<open>b\<close>, under longer names: a constant called \<open>s\<close> would take the
  name from every variable \<open>s\<close>. The global \<open>verbose\<close> only selects what is printed and is
  left out, as is everything the program prints.
\<close>

record config =
  s_bits :: int
  E_lines :: int
  b_bits :: int

record sim =
  cache :: "cacheLine list list"
  stats :: csim_stats_t

text \<open>One line of the trace file after tokenizing: operation, address, size.\<close>

type_synonym traceLine = "char \<times> 64 word \<times> int"

subsection \<open>Primitive C operations\<close>

text \<open>\<open>x >> n\<close> on a \<open>long\<close>.\<close>

definition shr_long :: "64 word \<Rightarrow> int \<Rightarrow> error + 64 word" where
  "shr_long x n =
     (if n < 0 \<or> 64 \<le> n then Inl UndefinedShift else Inr (signed_drop_bit (nat n) x))"

text \<open>\<open>x << n\<close> on an \<open>int\<close>.\<close>

definition shl_int :: "int \<Rightarrow> int \<Rightarrow> error + int" where
  "shl_int x n =
     (if n < 0 \<or> 32 \<le> n \<or> x < 0 \<or> 2 ^ 31 \<le> x * 2 ^ nat n then Inl UndefinedShift
      else Inr (x * 2 ^ nat n))"

text \<open>
  \<open>x++\<close> on a \<open>long\<close>. At \<open>LONG_MAX\<close> the increment overflows; the compiled program then
  holds \<open>LONG_MIN\<close>, and that wrap-around is written out here. A counter gets there only
  after \<open>2^63 - 1\<close> accesses to its set that pass it by.
\<close>

definition incr_long :: "int \<Rightarrow> int" where
  "incr_long x = (if x = 2 ^ 63 - 1 then - (2 ^ 63) else x + 1)"

text \<open>
  \<open>(unsigned long)pow(2, b)\<close>. The call is reached only after \<open>addr >> b\<close> has been
  evaluated, that is for \<open>0 \<le> b < 64\<close>, where the power is exact and fits.
\<close>

definition blockSize :: "config \<Rightarrow> 64 word" where
  "blockSize g = 2 ^ nat (b_bits g)"

text \<open>\<open>cache[set][i] = l\<close>.\<close>

definition set_line :: "cacheLine list list \<Rightarrow> nat \<Rightarrow> nat \<Rightarrow> cacheLine \<Rightarrow> cacheLine list list" where
  "set_line c k i l = c[k := (c ! k)[i := l]]"

subsection \<open>The functions of csim.c\<close>

text \<open>The check at the end of \<open>parseArgument\<close>.\<close>

definition parseArgument :: "config \<Rightarrow> error + config" where
  "parseArgument g =
     (if s_bits g < 0 \<or> E_lines g \<le> 0 \<or> b_bits g < 0 \<or> s_bits g + b_bits g > 64
      then Inl InvalidInput else Inr g)"

text \<open>
  \<open>init\<close>. \<open>malloc\<close> leaves the field \<open>tag\<close> of every line uninitialised; the parameter
  \<open>junk\<close> gives the content found there.
\<close>

definition init :: "config \<Rightarrow> (nat \<Rightarrow> nat \<Rightarrow> 64 word) \<Rightarrow> error + cacheLine list list" where
  "init g junk =
     (if 31 \<le> s_bits g then Inl UndefinedConversion
      else
        let S = (if s_bits g < 0 then 0 else 2 ^ nat (s_bits g)) :: nat
        in Inr (map (\<lambda>i. map (\<lambda>j. \<lparr>valid = 0, tag = junk i j, dirty = 0, lastUsed = 0\<rparr>)
                            [0..<nat (E_lines g)])
                  [0..<S]))"

text \<open>
  The two loops that visit every line of a set, \<open>for (i = 0; i < E; i++)\<close>, are folds over
  the indices \<open>0, \<dots>, E - 1\<close>; the state of the fold is the array for \<open>updateLastUsed\<close> and
  the variable \<open>maxIndex\<close> for \<open>findLeastRecentlyUsed\<close>. The parameters \<open>set\<close> and \<open>offset\<close>
  are array indices and are natural numbers here.
\<close>

definition updateLastUsed :: "config \<Rightarrow> nat \<Rightarrow> nat \<Rightarrow> cacheLine list list \<Rightarrow> cacheLine list list" where
  "updateLastUsed g k offset c =
     fold (\<lambda>i c. if i \<noteq> offset
                 then set_line c k i ((c ! k ! i)\<lparr>lastUsed := incr_long (lastUsed (c ! k ! i))\<rparr>)
                 else c)
          [0..<nat (E_lines g)]
          (set_line c k offset ((c ! k ! offset)\<lparr>lastUsed := 0\<rparr>))"

definition findLeastRecentlyUsed :: "config \<Rightarrow> nat \<Rightarrow> cacheLine list list \<Rightarrow> nat" where
  "findLeastRecentlyUsed g k c =
     fold (\<lambda>i maxIndex. if lastUsed (c ! k ! i) > lastUsed (c ! k ! maxIndex) then i else maxIndex)
          [0..<nat (E_lines g)] 0"

text \<open>
  \<open>isMiss\<close>: the loop leaves at the first line that is valid and holds the tag;
  \<open>List.find\<close> over the indices \<open>0, \<dots>, E - 1\<close> returns that index.
\<close>

definition isMiss :: "config \<Rightarrow> nat \<Rightarrow> 64 word \<Rightarrow> char \<Rightarrow> sim \<Rightarrow> bool \<times> sim" where
  "isMiss g k t operation st =
     (case List.find (\<lambda>i. valid (cache st ! k ! i) = 1 \<and> tag (cache st ! k ! i) = t)
                     [0..<nat (E_lines g)] of
        None \<Rightarrow> (True, st)
      | Some i \<Rightarrow>
          let c1 = updateLastUsed g k i (cache st)
          in if operation = CHR ''S'' \<and> dirty (c1 ! k ! i) = 0
             then (False, \<lparr>cache = set_line c1 k i ((c1 ! k ! i)\<lparr>dirty := 1\<rparr>),
                           stats = (stats st)\<lparr>dirty_bytes := dirty_bytes (stats st) + blockSize g\<rparr>\<rparr>)
             else (False, \<lparr>cache = c1, stats = stats st\<rparr>))"

text \<open>
  \<open>updateCache\<close>, in its three parts: the loop that looks for an invalid line and
  installs there, the eviction when the loop found none, and the marking for a store.
  The first part returns \<open>isFull\<close>, the value of \<open>i\<close> after the loop, and the state.
\<close>

definition updateCache_install :: "config \<Rightarrow> nat \<Rightarrow> 64 word \<Rightarrow> sim \<Rightarrow> bool \<times> nat \<times> sim" where
  "updateCache_install g k t st =
     (case List.find (\<lambda>i. valid (cache st ! k ! i) = 0) [0..<nat (E_lines g)] of
        None \<Rightarrow> (True, nat (E_lines g), st)
      | Some i \<Rightarrow>
          (False, i,
           \<lparr>cache = updateLastUsed g k i
                      (set_line (cache st) k i ((cache st ! k ! i)\<lparr>valid := 1, tag := t, dirty := 0\<rparr>)),
            stats = stats st\<rparr>))"

definition updateCache_evict :: "config \<Rightarrow> nat \<Rightarrow> 64 word \<Rightarrow> sim \<Rightarrow> nat \<times> sim" where
  "updateCache_evict g k t st =
     (let evicted = findLeastRecentlyUsed g k (cache st);
          c1 = set_line (cache st) k evicted ((cache st ! k ! evicted)\<lparr>valid := 1, tag := t\<rparr>);
          st2 = (if dirty (c1 ! k ! evicted) \<noteq> 0
                 then \<lparr>cache = set_line c1 k evicted ((c1 ! k ! evicted)\<lparr>dirty := 0\<rparr>),
                       stats = (stats st)\<lparr>dirty_evictions := dirty_evictions (stats st) + blockSize g,
                                          dirty_bytes := dirty_bytes (stats st) - blockSize g\<rparr>\<rparr>
                 else \<lparr>cache = c1, stats = stats st\<rparr>)
      in (evicted, \<lparr>cache = updateLastUsed g k evicted (cache st2), stats = stats st2\<rparr>))"

definition updateCache :: "config \<Rightarrow> nat \<Rightarrow> 64 word \<Rightarrow> char \<Rightarrow> sim \<Rightarrow> bool \<times> sim" where
  "updateCache g k t operation st =
     (let (isFull, i, st1) = updateCache_install g k t st;
          (index, st2) = (if isFull then updateCache_evict g k t st1 else (i, st1));
          st3 = (if operation = CHR ''S''
                 then \<lparr>cache = set_line (cache st2) k index ((cache st2 ! k ! index)\<lparr>dirty := 1\<rparr>),
                       stats = (stats st2)\<lparr>dirty_bytes := dirty_bytes (stats st2) + blockSize g\<rparr>\<rparr>
                 else st2)
      in (isFull, st3))"

text \<open>
  The first two statements of \<open>updateData\<close>:
  \<open>set = addr >> b & ((1 << s) - 1)\<close> and \<open>tag = addr >> (s + b)\<close>. The mask is computed
  on \<open>int\<close> and converted to \<open>long\<close> for the conjunction.
\<close>

definition decode :: "config \<Rightarrow> 64 word \<Rightarrow> error + (64 word \<times> 64 word)" where
  "decode g addr =
     (case shr_long addr (b_bits g) of Inl e \<Rightarrow> Inl e | Inr sh \<Rightarrow>
      case shl_int 1 (s_bits g) of Inl e \<Rightarrow> Inl e | Inr p \<Rightarrow>
      case shr_long addr (s_bits g + b_bits g) of Inl e \<Rightarrow> Inl e | Inr t \<Rightarrow>
        Inr (sh AND word_of_int (p - 1), t))"

definition updateData :: "config \<Rightarrow> 64 word \<Rightarrow> char \<Rightarrow> sim \<Rightarrow> error + sim" where
  "updateData g addr operation st =
     (case decode g addr of Inl e \<Rightarrow> Inl e | Inr (setIndex, t) \<Rightarrow>
        let (miss, st1) = isMiss g (unat setIndex) t operation st
        in if miss
           then
             let st2 = st1\<lparr>stats := (stats st1)\<lparr>misses := misses (stats st1) + 1\<rparr>\<rparr>;
                 (full, st3) = updateCache g (unat setIndex) t operation st2
             in if full
                then Inr (st3\<lparr>stats := (stats st3)\<lparr>evictions := evictions (stats st3) + 1\<rparr>\<rparr>)
                else Inr st3
           else Inr (st1\<lparr>stats := (stats st1)\<lparr>hits := hits (stats st1) + 1\<rparr>\<rparr>))"

text \<open>
  The loop of \<open>main\<close> over the lines of the trace file. Reading and tokenizing a line is
  left out: the trace is the list of its tokenized lines.
\<close>

fun run :: "config \<Rightarrow> traceLine list \<Rightarrow> sim \<Rightarrow> error + sim" where
  "run g [] st = Inr st"
| "run g ((operation, addr, sz) # rest) st =
     (if operation = CHR ''L'' \<or> operation = CHR ''S''
      then (case updateData g addr operation st of Inl e \<Rightarrow> Inl e | Inr st' \<Rightarrow> run g rest st')
      else run g rest st)"

text \<open>The global \<open>stats\<close> has static storage and starts with every field zero.\<close>

definition stats0 :: csim_stats_t where
  "stats0 = \<lparr>hits = 0, misses = 0, evictions = 0, dirty_bytes = 0, dirty_evictions = 0\<rparr>"

text \<open>\<open>main\<close>: the argument check, \<open>init\<close>, and the loop over the trace.\<close>

definition main :: "config \<Rightarrow> (nat \<Rightarrow> nat \<Rightarrow> 64 word) \<Rightarrow> traceLine list \<Rightarrow> error + sim" where
  "main g junk trace =
     (case parseArgument g of Inl e \<Rightarrow> Inl e | Inr g' \<Rightarrow>
      case init g' junk of Inl e \<Rightarrow> Inl e | Inr c \<Rightarrow>
        run g' trace \<lparr>cache = c, stats = stats0\<rparr>)"

subsection \<open>Notions used to state the properties\<close>

text \<open>
  The row that an access to line \<open>i\<close> leaves behind, when the access leaves the line
  itself as \<open>l\<close>: every other line of the row has aged by one.
\<close>

definition access_row :: "nat \<Rightarrow> cacheLine \<Rightarrow> cacheLine list \<Rightarrow> cacheLine list" where
  "access_row i l r =
     map (\<lambda>j. if j = i then l else (r ! j)\<lparr>lastUsed := incr_long (lastUsed (r ! j))\<rparr>) [0..<length r]"

text \<open>A line counts towards \<open>dirty_bytes\<close> when it is valid and its dirty flag is set.\<close>

definition is_dirty :: "cacheLine \<Rightarrow> bool" where
  "is_dirty l \<longleftrightarrow> valid l = 1 \<and> dirty l \<noteq> 0"

text \<open>The sum of the block size \<open>2^b\<close> over all valid dirty lines of the cache.\<close>

definition dirty_total :: "config \<Rightarrow> cacheLine list list \<Rightarrow> nat" where
  "dirty_total g c = (\<Sum>l\<leftarrow>concat c. if is_dirty l then 2 ^ nat (b_bits g) else 0)"

text \<open>
  The shape of the array that \<open>init\<close> builds, which every access keeps: \<open>2^s\<close> sets of \<open>E\<close>
  lines, every \<open>valid\<close> field \<open>0\<close> or \<open>1\<close>.
\<close>

definition lines_ok :: "config \<Rightarrow> cacheLine list list \<Rightarrow> bool" where
  "lines_ok g c \<longleftrightarrow>
     length c = 2 ^ nat (s_bits g) \<and>
     (\<forall>k<length c. length (c ! k) = nat (E_lines g) \<and>
        (\<forall>j<nat (E_lines g). valid (c ! k ! j) = 0 \<or> valid (c ! k ! j) = 1))"

text \<open>The invariant of a run: the shape above, and \<open>dirty_bytes\<close> is the sum above.\<close>

definition sim_inv :: "config \<Rightarrow> sim \<Rightarrow> bool" where
  "sim_inv g st \<longleftrightarrow>
     lines_ok g (cache st) \<and> dirty_bytes (stats st) = of_nat (dirty_total g (cache st))"

text \<open>The number of load and store records of a trace.\<close>

definition count_accesses :: "traceLine list \<Rightarrow> nat" where
  "count_accesses trace =
     length (filter (\<lambda>(operation, addr, sz). operation = CHR ''L'' \<or> operation = CHR ''S'') trace)"

text \<open>
  The line that an access with tag \<open>t\<close> to set \<open>k\<close> touches: the first valid line that holds
  \<open>t\<close> (the hit line of \<open>isMiss\<close>); when there is none, the first invalid line (where
  \<open>updateCache\<close> installs); when there is none either, the line that
  \<open>findLeastRecentlyUsed\<close> returns (the victim).
\<close>

definition accessed_line :: "config \<Rightarrow> nat \<Rightarrow> 64 word \<Rightarrow> cacheLine list list \<Rightarrow> nat \<Rightarrow> bool" where
  "accessed_line g k t c i \<longleftrightarrow>
     i < nat (E_lines g) \<and>
     (if \<exists>j<nat (E_lines g). valid (c ! k ! j) = 1 \<and> tag (c ! k ! j) = t
      then valid (c ! k ! i) = 1 \<and> tag (c ! k ! i) = t
           \<and> (\<forall>j<i. \<not> (valid (c ! k ! j) = 1 \<and> tag (c ! k ! j) = t))
      else if \<exists>j<nat (E_lines g). valid (c ! k ! j) = 0
      then valid (c ! k ! i) = 0 \<and> (\<forall>j<i. valid (c ! k ! j) \<noteq> 0)
      else i = findLeastRecentlyUsed g k c)"

text \<open>Every \<open>lastUsed\<close> of the cache lies between \<open>0\<close> and \<open>n\<close>.\<close>

definition ages_within :: "nat \<Rightarrow> cacheLine list list \<Rightarrow> bool" where
  "ages_within n c \<longleftrightarrow>
     (\<forall>k<length c. \<forall>j<length (c ! k). 0 \<le> lastUsed (c ! k ! j) \<and> lastUsed (c ! k ! j) \<le> int n)"

subsection \<open>Concrete inputs\<close>

text \<open>A set of three lines whose second and third line share the largest \<open>lastUsed\<close>.\<close>

definition ex_lru_config :: config where
  "ex_lru_config = \<lparr>s_bits = 0, E_lines = 3, b_bits = 0\<rparr>"

definition ex_lru_cache :: "cacheLine list list" where
  "ex_lru_cache =
     [[\<lparr>valid = 1, tag = 10, dirty = 0, lastUsed = 2\<rparr>,
       \<lparr>valid = 1, tag = 11, dirty = 0, lastUsed = 5\<rparr>,
       \<lparr>valid = 1, tag = 12, dirty = 0, lastUsed = 5\<rparr>]]"

text \<open>
  A single set of one line with blocks of 16 bytes: the state after a store to address
  \<open>0\<close>, and the state after a load from address \<open>0\<close>.
\<close>

definition ex_store_config :: config where
  "ex_store_config = \<lparr>s_bits = 0, E_lines = 1, b_bits = 4\<rparr>"

definition ex_store_state :: sim where
  "ex_store_state =
     \<lparr>cache = [[\<lparr>valid = 1, tag = 0, dirty = 1, lastUsed = 0\<rparr>]],
      stats = \<lparr>hits = 0, misses = 1, evictions = 0, dirty_bytes = 16, dirty_evictions = 0\<rparr>\<rparr>"


text \<open>
  A single set of three lines: the state after a load from address \<open>5\<close>, the state
  after a further load from address \<open>7\<close>, and the state after one more load from \<open>7\<close>.
\<close>

definition ex_free_config :: config where
  "ex_free_config = \<lparr>s_bits = 0, E_lines = 3, b_bits = 0\<rparr>"

definition ex_free_state :: sim where
  "ex_free_state =
     \<lparr>cache = [[\<lparr>valid = 1, tag = 5, dirty = 0, lastUsed = 0\<rparr>,
                \<lparr>valid = 0, tag = 0, dirty = 0, lastUsed = 1\<rparr>,
                \<lparr>valid = 0, tag = 0, dirty = 0, lastUsed = 1\<rparr>]],
      stats = \<lparr>hits = 0, misses = 1, evictions = 0, dirty_bytes = 0, dirty_evictions = 0\<rparr>\<rparr>"

definition ex_free_next :: sim where
  "ex_free_next =
     \<lparr>cache = [[\<lparr>valid = 1, tag = 5, dirty = 0, lastUsed = 1\<rparr>,
                \<lparr>valid = 1, tag = 7, dirty = 0, lastUsed = 0\<rparr>,
                \<lparr>valid = 0, tag = 0, dirty = 0, lastUsed = 2\<rparr>]],
      stats = \<lparr>hits = 0, misses = 2, evictions = 0, dirty_bytes = 0, dirty_evictions = 0\<rparr>\<rparr>"

definition ex_free_hit :: sim where
  "ex_free_hit =
     \<lparr>cache = [[\<lparr>valid = 1, tag = 5, dirty = 0, lastUsed = 2\<rparr>,
                \<lparr>valid = 1, tag = 7, dirty = 0, lastUsed = 0\<rparr>,
                \<lparr>valid = 0, tag = 0, dirty = 0, lastUsed = 3\<rparr>]],
      stats = \<lparr>hits = 1, misses = 2, evictions = 0, dirty_bytes = 0, dirty_evictions = 0\<rparr>\<rparr>"

text \<open>
  Geometries for the decoder: one inside the range where every shift is defined, one where
  the address can be negative as a \<open>long\<close>, one with \<open>s = 31\<close> and one with \<open>s + b = 64\<close>.
\<close>

definition ex_decode_config :: config where
  "ex_decode_config = \<lparr>s_bits = 4, E_lines = 1, b_bits = 4\<rparr>"

definition ex_signed_config :: config where
  "ex_signed_config = \<lparr>s_bits = 0, E_lines = 1, b_bits = 1\<rparr>"

definition ex_wide_config :: config where
  "ex_wide_config = \<lparr>s_bits = 31, E_lines = 1, b_bits = 0\<rparr>"

definition ex_full_width_config :: config where
  "ex_full_width_config = \<lparr>s_bits = 1, E_lines = 1, b_bits = 63\<rparr>"

text \<open>
  Two lines of \<open>2^63\<close> bytes each: the state after stores to the addresses \<open>0\<close> and
  \<open>0xFFFFFFFFFFFFFFFF\<close>.
\<close>

definition ex_wrap_config :: config where
  "ex_wrap_config = \<lparr>s_bits = 0, E_lines = 2, b_bits = 63\<rparr>"

definition ex_wrap_state :: sim where
  "ex_wrap_state =
     \<lparr>cache = [[\<lparr>valid = 1, tag = 0, dirty = 1, lastUsed = 1\<rparr>,
                \<lparr>valid = 1, tag = 0xFFFFFFFFFFFFFFFF, dirty = 1, lastUsed = 0\<rparr>]],
      stats = \<lparr>hits = 0, misses = 2, evictions = 0, dirty_bytes = 0, dirty_evictions = 0\<rparr>\<rparr>"

text \<open>
  A direct-mapped cache of one line, a trace with a record that is neither a load nor a
  store, and the state after that trace.
\<close>

definition ex_direct_config :: config where
  "ex_direct_config = \<lparr>s_bits = 0, E_lines = 1, b_bits = 0\<rparr>"

definition ex_mixed_result :: sim where
  "ex_mixed_result =
     \<lparr>cache = [[\<lparr>valid = 1, tag = 0, dirty = 0, lastUsed = 0\<rparr>]],
      stats = \<lparr>hits = 1, misses = 1, evictions = 0, dirty_bytes = 0, dirty_evictions = 0\<rparr>\<rparr>"

definition ex_mixed_trace :: "traceLine list" where
  "ex_mixed_trace = [(CHR ''L'', 0, 1), (CHR ''M'', 0, 1), (CHR ''L'', 0, 1)]"

text \<open>
  Two sets of one line: the state after a load from address \<open>0\<close>, then after a further
  load from address \<open>1\<close> (the other set), or instead from address \<open>2\<close> (the same set).
\<close>

definition ex_two_sets_config :: config where
  "ex_two_sets_config = \<lparr>s_bits = 1, E_lines = 1, b_bits = 0\<rparr>"

definition ex_two_sets_state :: sim where
  "ex_two_sets_state =
     \<lparr>cache = [[\<lparr>valid = 1, tag = 0, dirty = 0, lastUsed = 0\<rparr>],
               [\<lparr>valid = 0, tag = 0, dirty = 0, lastUsed = 0\<rparr>]],
      stats = \<lparr>hits = 0, misses = 1, evictions = 0, dirty_bytes = 0, dirty_evictions = 0\<rparr>\<rparr>"

definition ex_two_sets_next :: sim where
  "ex_two_sets_next =
     \<lparr>cache = [[\<lparr>valid = 1, tag = 0, dirty = 0, lastUsed = 0\<rparr>],
               [\<lparr>valid = 1, tag = 0, dirty = 0, lastUsed = 0\<rparr>]],
      stats = \<lparr>hits = 0, misses = 2, evictions = 0, dirty_bytes = 0, dirty_evictions = 0\<rparr>\<rparr>"

definition ex_two_sets_end :: sim where
  "ex_two_sets_end =
     \<lparr>cache = [[\<lparr>valid = 1, tag = 1, dirty = 0, lastUsed = 0\<rparr>],
               [\<lparr>valid = 0, tag = 0, dirty = 0, lastUsed = 0\<rparr>]],
      stats = \<lparr>hits = 0, misses = 2, evictions = 1, dirty_bytes = 0, dirty_evictions = 0\<rparr>\<rparr>"

section \<open>Auxiliary facts\<close>

subsection \<open>Rows, and the loops of \<open>updateLastUsed\<close> and \<open>findLeastRecentlyUsed\<close>\<close>

lemma length_access_row [simp]: "length (access_row i l r) = length r"
  by (simp add: access_row_def)

lemma nth_access_row:
  "j < length r \<Longrightarrow>
   access_row i l r ! j = (if j = i then l else (r ! j)\<lparr>lastUsed := incr_long (lastUsed (r ! j))\<rparr>)"
  by (simp add: access_row_def)

lemma set_line_same:
  "k < length c \<Longrightarrow> set_line (c[k := r]) k i l = c[k := r[i := l]]"
  by (simp add: set_line_def)

lemma aging_loop:
  assumes "k < length c" and "n \<le> length (c ! k)"
  shows "fold (\<lambda>i c. if i \<noteq> off
                       then set_line c k i ((c ! k ! i)\<lparr>lastUsed := incr_long (lastUsed (c ! k ! i))\<rparr>)
                       else c) [0..<n] c
         = c[k := map (\<lambda>j. if j < n \<and> j \<noteq> off
                              then (c ! k ! j)\<lparr>lastUsed := incr_long (lastUsed (c ! k ! j))\<rparr>
                              else c ! k ! j) [0..<length (c ! k)]]"
    (is "fold ?F [0..<n] c = c[k := ?R n]")
  using assms(2)
proof (induction n)
  case 0
  then show ?case by (simp add: map_nth)
next
  case (Suc n)
  then have n: "n < length (c ! k)" and IH: "fold ?F [0..<n] c = c[k := ?R n]" by simp_all
  have "fold ?F [0..<Suc n] c = ?F n (fold ?F [0..<n] c)"
    by simp
  also have "\<dots> = ?F n (c[k := ?R n])"
    by (simp only: IH)
  also have "\<dots> = c[k := ?R (Suc n)]"
  proof (cases "n = off")
    case True
    have R: "?R n = ?R (Suc n)"
      using True by (auto simp: less_Suc_eq)
    show ?thesis unfolding R [symmetric] using True by simp
  next
    case False
    have "(?R n)[n := (c ! k ! n)\<lparr>lastUsed := incr_long (lastUsed (c ! k ! n))\<rparr>] = ?R (Suc n)"
      using n False by (intro nth_equalityI) (auto simp: nth_list_update less_Suc_eq)
    then show ?thesis
      using False n assms(1) by (simp add: set_line_same)
  qed
  finally show ?case .
qed

lemma updateLastUsed_row:
  assumes "k < length c" and "length (c ! k) = nat (E_lines g)" and "off < nat (E_lines g)"
  shows "updateLastUsed g k off c = c[k := access_row off ((c ! k ! off)\<lparr>lastUsed := 0\<rparr>) (c ! k)]"
proof -
  let ?c0 = "set_line c k off ((c ! k ! off)\<lparr>lastUsed := 0\<rparr>)"
  have k: "k < length ?c0" and n: "nat (E_lines g) \<le> length (?c0 ! k)"
    using assms by (simp_all add: set_line_def)
  show ?thesis
    unfolding updateLastUsed_def aging_loop [OF k n]
    using assms
    by (auto simp: set_line_def access_row_def nth_list_update intro!: nth_equalityI arg_cong [where f = "list_update c k"])
qed

lemma lru_loop:
  assumes "Suc n \<le> length r"
  defines "m \<equiv> fold (\<lambda>i maxIndex. if lastUsed (r ! i) > lastUsed (r ! maxIndex) then i else maxIndex)
                      [0..<Suc n] 0"
  shows "m < Suc n \<and> (\<forall>j<Suc n. lastUsed (r ! j) \<le> lastUsed (r ! m))
         \<and> (\<forall>j<m. lastUsed (r ! j) < lastUsed (r ! m))"
  using assms(1) unfolding m_def
proof (induction n)
  case 0
  then show ?case by simp
next
  case (Suc n)
  let ?f = "\<lambda>i maxIndex. if lastUsed (r ! i) > lastUsed (r ! maxIndex) then i else maxIndex"
  define p where "p = fold ?f [0..<Suc n] 0"
  have IH: "p < Suc n" "\<forall>j<Suc n. lastUsed (r ! j) \<le> lastUsed (r ! p)"
    "\<forall>j<p. lastUsed (r ! j) < lastUsed (r ! p)"
    using Suc unfolding p_def by simp_all
  have step: "fold ?f [0..<Suc (Suc n)] 0 = ?f (Suc n) p"
    unfolding p_def by (simp only: upt_Suc_append [of 0 "Suc n"] fold_append) simp
  show ?case
  proof (cases "lastUsed (r ! Suc n) > lastUsed (r ! p)")
    case True
    then have "fold ?f [0..<Suc (Suc n)] 0 = Suc n" unfolding step by simp
    moreover have "\<forall>j<Suc (Suc n). lastUsed (r ! j) \<le> lastUsed (r ! Suc n)"
      using IH(2) True by (auto simp: less_Suc_eq)
    moreover have "\<forall>j<Suc n. lastUsed (r ! j) < lastUsed (r ! Suc n)"
      using IH(2) True by (auto simp: less_Suc_eq)
    ultimately show ?thesis by simp
  next
    case False
    then have "fold ?f [0..<Suc (Suc n)] 0 = p" unfolding step by simp
    moreover have "\<forall>j<Suc (Suc n). lastUsed (r ! j) \<le> lastUsed (r ! p)"
      using IH(2) False by (auto simp: less_Suc_eq)
    ultimately show ?thesis using IH by simp
  qed
qed

lemma findLeastRecentlyUsed_max:
  assumes "0 < E_lines g" and "length (c ! k) = nat (E_lines g)"
  defines "v \<equiv> findLeastRecentlyUsed g k c"
  shows "v < nat (E_lines g)"
    and "\<forall>j<nat (E_lines g). lastUsed (c ! k ! j) \<le> lastUsed (c ! k ! v)"
    and "\<forall>j<v. lastUsed (c ! k ! j) < lastUsed (c ! k ! v)"
proof -
  obtain n where n: "nat (E_lines g) = Suc n"
    using assms(1) by (cases "nat (E_lines g)") auto
  have "Suc n \<le> length (c ! k)" using assms(2) n by simp
  from lru_loop [OF this]
  show "v < nat (E_lines g)"
    and "\<forall>j<nat (E_lines g). lastUsed (c ! k ! j) \<le> lastUsed (c ! k ! v)"
    and "\<forall>j<v. lastUsed (c ! k ! j) < lastUsed (c ! k ! v)"
    unfolding v_def findLeastRecentlyUsed_def n by blast+
qed

subsection \<open>The loops that stop at the first match\<close>

lemma find_upt_Some:
  "i < n \<Longrightarrow> P i \<Longrightarrow> \<forall>j<i. \<not> P j \<Longrightarrow> List.find P [0..<n] = Some i"
  by (simp add: find_Some_iff) (rule exI [of _ i], simp)

lemma find_upt_None:
  "\<forall>j<n. \<not> P j \<Longrightarrow> List.find P [0..<n] = None"
  by (simp add: find_None_iff)

lemma find_upt_SomeD:
  "List.find P [0..<n] = Some i \<Longrightarrow> i < n \<and> P i \<and> (\<forall>j<i. \<not> P j)"
  by (auto simp: find_Some_iff)

lemma find_upt_NoneD:
  "List.find P [0..<n] = None \<Longrightarrow> \<forall>j<n. \<not> P j"
  by (simp add: find_None_iff)

lemma access_row_update:
  "i < length r \<Longrightarrow> (access_row i l r)[i := l'] = access_row i l' r"
  by (intro nth_equalityI) (auto simp: nth_access_row nth_list_update)

lemma line_eqI:
  "valid a = valid b \<Longrightarrow> tag a = tag b \<Longrightarrow> dirty a = dirty b \<Longrightarrow> lastUsed a = lastUsed b
   \<Longrightarrow> (a :: cacheLine) = b"
  by simp

lemma isMiss_hit:
  assumes "k < length (cache st)" and "length (cache st ! k) = nat (E_lines g)"
    and "i < nat (E_lines g)"
    and "valid (cache st ! k ! i) = 1" and "tag (cache st ! k ! i) = t"
    and "\<forall>j<i. \<not> (valid (cache st ! k ! j) = 1 \<and> tag (cache st ! k ! j) = t)"
  shows "isMiss g k t operation st =
    (False,
     \<lparr>cache = (cache st)[k := access_row i
         \<lparr>valid = 1, tag = t,
          dirty = (if operation = CHR ''S'' \<and> dirty (cache st ! k ! i) = 0
                   then 1 else dirty (cache st ! k ! i)),
          lastUsed = 0\<rparr>
         (cache st ! k)],
      stats = (stats st)\<lparr>dirty_bytes := dirty_bytes (stats st) +
         (if operation = CHR ''S'' \<and> dirty (cache st ! k ! i) = 0 then blockSize g else 0)\<rparr>\<rparr>)"
proof -
  have f: "List.find (\<lambda>i. valid (cache st ! k ! i) = 1 \<and> tag (cache st ! k ! i) = t)
             [0..<nat (E_lines g)] = Some i"
    using assms by (intro find_upt_Some) auto
  have i: "i < length (cache st ! k)" using assms by simp
  have l0: "(cache st ! k ! i)\<lparr>lastUsed := 0\<rparr>
            = \<lparr>valid = 1, tag = t, dirty = dirty (cache st ! k ! i), lastUsed = 0\<rparr>"
    using assms(4,5) by (intro line_eqI) simp_all
  show ?thesis
    unfolding isMiss_def f
    using assms(1) i
    by (simp add: updateLastUsed_row [OF assms(1,2,3)] Let_def set_line_same
        nth_access_row access_row_update l0)
qed

lemma isMiss_miss:
  assumes "\<forall>j<nat (E_lines g). \<not> (valid (cache st ! k ! j) = 1 \<and> tag (cache st ! k ! j) = t)"
  shows "isMiss g k t operation st = (True, st)"
  unfolding isMiss_def using find_upt_None [OF assms] by simp

lemma updateCache_install_free:
  assumes "k < length (cache st)" and "length (cache st ! k) = nat (E_lines g)"
    and "i < nat (E_lines g)" and "valid (cache st ! k ! i) = 0"
    and "\<forall>j<i. valid (cache st ! k ! j) \<noteq> 0"
  shows "updateCache_install g k t st =
    (False, i,
     \<lparr>cache = (cache st)[k := access_row i \<lparr>valid = 1, tag = t, dirty = 0, lastUsed = 0\<rparr>
                                 (cache st ! k)],
      stats = stats st\<rparr>)"
proof -
  have f: "List.find (\<lambda>i. valid (cache st ! k ! i) = 0) [0..<nat (E_lines g)] = Some i"
    using assms by (intro find_upt_Some) auto
  let ?l = "(cache st ! k ! i)\<lparr>valid := 1, tag := t, dirty := 0\<rparr>"
  let ?c1 = "set_line (cache st) k i ?l"
  have i: "i < length (cache st ! k)" using assms by simp
  have c1: "?c1 = (cache st)[k := (cache st ! k)[i := ?l]]"
    by (simp add: set_line_def)
  have k1: "k < length ?c1" and n1: "length (?c1 ! k) = nat (E_lines g)"
    using assms by (simp_all add: set_line_def)
  have l0: "?l\<lparr>lastUsed := 0\<rparr> = \<lparr>valid = 1, tag = t, dirty = 0, lastUsed = 0\<rparr>"
    by (intro line_eqI) simp_all
  have row: "access_row i \<lparr>valid = 1, tag = t, dirty = 0, lastUsed = 0\<rparr> ((cache st ! k)[i := ?l])
      = access_row i \<lparr>valid = 1, tag = t, dirty = 0, lastUsed = 0\<rparr> (cache st ! k)"
    by (intro nth_equalityI) (auto simp: nth_access_row nth_list_update)
  show ?thesis
    unfolding updateCache_install_def f
    using assms(1) i
    by (simp add: updateLastUsed_row [OF k1 n1 assms(3)]) (simp add: c1 l0 row)
qed

lemma updateCache_install_full:
  assumes "\<forall>j<nat (E_lines g). valid (cache st ! k ! j) \<noteq> 0"
  shows "updateCache_install g k t st = (True, nat (E_lines g), st)"
proof -
  have "List.find (\<lambda>i. valid (cache st ! k ! i) = 0) [0..<nat (E_lines g)] = None"
    using assms by (intro find_upt_None) simp
  then show ?thesis by (simp add: updateCache_install_def)
qed

lemma updateCache_evict_row:
  assumes "k < length (cache st)" and "length (cache st ! k) = nat (E_lines g)"
    and "0 < E_lines g"
  defines "v \<equiv> findLeastRecentlyUsed g k (cache st)"
  shows "updateCache_evict g k t st =
    (v,
     \<lparr>cache = (cache st)[k := access_row v \<lparr>valid = 1, tag = t, dirty = 0, lastUsed = 0\<rparr>
                                 (cache st ! k)],
      stats = (stats st)\<lparr>
        dirty_evictions := dirty_evictions (stats st) +
           (if dirty (cache st ! k ! v) \<noteq> 0 then blockSize g else 0),
        dirty_bytes := dirty_bytes (stats st) -
           (if dirty (cache st ! k ! v) \<noteq> 0 then blockSize g else 0)\<rparr>\<rparr>)"
proof -
  have v: "v < nat (E_lines g)"
    unfolding v_def by (rule findLeastRecentlyUsed_max(1) [OF assms(3,2)])
  then have vl: "v < length (cache st ! k)" using assms(2) by simp
  let ?l1 = "(cache st ! k ! v)\<lparr>valid := 1, tag := t\<rparr>"
  let ?new = "\<lparr>valid = 1, tag = t, dirty = 0, lastUsed = 0\<rparr>"
  have row: "\<And>l. access_row v ?new ((cache st ! k)[v := l]) = access_row v ?new (cache st ! k)"
    by (intro nth_equalityI) (auto simp: nth_access_row nth_list_update)
  have upd: "\<And>l. dirty l = 0 \<Longrightarrow> valid l = 1 \<Longrightarrow> tag l = t \<Longrightarrow>
    updateLastUsed g k v ((cache st)[k := (cache st ! k)[v := l]])
      = (cache st)[k := access_row v ?new (cache st ! k)]"
  proof -
    fix l :: cacheLine
    assume l: "dirty l = 0" "valid l = 1" "tag l = t"
    let ?c = "(cache st)[k := (cache st ! k)[v := l]]"
    have k1: "k < length ?c" and n1: "length (?c ! k) = nat (E_lines g)"
      using assms(1,2) by simp_all
    have "l\<lparr>lastUsed := 0\<rparr> = ?new" using l by (intro line_eqI) simp_all
    then show "updateLastUsed g k v ?c = (cache st)[k := access_row v ?new (cache st ! k)]"
      using assms(1) vl by (simp add: updateLastUsed_row [OF k1 n1 v] row)
  qed
  show ?thesis
  proof (cases "dirty (cache st ! k ! v) = 0")
    case True
    have "updateLastUsed g k v ((cache st)[k := (cache st ! k)[v := ?l1]])
      = (cache st)[k := access_row v ?new (cache st ! k)]"
      using True by (intro upd) simp_all
    then show ?thesis
      using True assms(1) vl
      by (simp add: updateCache_evict_def v_def [symmetric] Let_def set_line_def)
  next
    case False
    have "updateLastUsed g k v ((cache st)[k := (cache st ! k)[v := ?l1\<lparr>dirty := 0\<rparr>]])
      = (cache st)[k := access_row v ?new (cache st ! k)]"
      by (intro upd) simp_all
    then show ?thesis
      using False assms(1) vl
      by (simp add: updateCache_evict_def v_def [symmetric] Let_def set_line_def)
  qed
qed

subsection \<open>The address decoder\<close>

lemma shl_int_one:
  "shl_int 1 n = (if 0 \<le> n \<and> n < 31 then Inr (2 ^ nat n) else Inl UndefinedShift)"
proof (cases "0 \<le> n \<and> n < 31")
  case True
  then have "nat n < 31" by arith
  then have "(2::int) ^ nat n < 2 ^ 31"
    by (intro power_strict_increasing) simp_all
  then show ?thesis using True by (simp add: shl_int_def)
next
  case False
  show ?thesis
  proof (cases "n < 0 \<or> 32 \<le> n")
    case True
    then show ?thesis using False unfolding shl_int_def by auto
  next
    case False
    then have "n = 31" using \<open>\<not> (0 \<le> n \<and> n < 31)\<close> by arith
    then show ?thesis by (simp add: shl_int_def)
  qed
qed

lemma decode_eq:
  "decode g addr =
     (if 0 \<le> s_bits g \<and> s_bits g < 31 \<and> 0 \<le> b_bits g \<and> s_bits g + b_bits g < 64
      then Inr (signed_drop_bit (nat (b_bits g)) addr AND mask (nat (s_bits g)),
                signed_drop_bit (nat (s_bits g + b_bits g)) addr)
      else Inl UndefinedShift)"
  by (auto simp: decode_def shr_long_def shl_int_one mask_eq_exp_minus_1)

lemma unat_and_mask_less: "unat ((x :: 64 word) AND mask n) < 2 ^ n"
  by (simp flip: take_bit_eq_mask add: unsigned_take_bit_eq)

lemma decode_index_range:
  assumes "decode g addr = Inr (si, t)"
  shows "unat si < 2 ^ nat (s_bits g)"
  using assms by (auto simp: decode_eq unat_and_mask_less split: if_splits)

lemma signed_drop_bit_and_mask:
  assumes "s + b \<le> 63"
  shows "signed_drop_bit b (w :: 64 word) AND mask s = drop_bit b w AND mask s"
  using assms
  by (intro bit_word_eqI) (auto simp: bit_simps)

lemma signed_drop_bit_nonneg:
  assumes "0 \<le> sint (w :: 64 word)"
  shows "signed_drop_bit n w = drop_bit n w"
proof -
  have "\<not> bit w 63" using assms bit_last_iff [of w] by simp
  then show ?thesis
    by (intro bit_word_eqI) (auto simp: bit_simps dest: bit_imp_le_length)
qed

subsection \<open>The three outcomes of one access\<close>

lemma updateCache_free:
  assumes "k < length (cache st)" and "length (cache st ! k) = nat (E_lines g)"
    and "i < nat (E_lines g)" and "valid (cache st ! k ! i) = 0"
    and "\<forall>j<i. valid (cache st ! k ! j) \<noteq> 0"
  shows "updateCache g k t operation st =
    (False,
     \<lparr>cache = (cache st)[k := access_row i
         \<lparr>valid = 1, tag = t, dirty = (if operation = CHR ''S'' then 1 else 0), lastUsed = 0\<rparr>
         (cache st ! k)],
      stats = (stats st)\<lparr>dirty_bytes := dirty_bytes (stats st) +
         (if operation = CHR ''S'' then blockSize g else 0)\<rparr>\<rparr>)"
  using assms(1,2,3)
  by (simp add: updateCache_def updateCache_install_free [OF assms] set_line_same
      nth_access_row access_row_update)

lemma updateCache_full:
  assumes "k < length (cache st)" and "length (cache st ! k) = nat (E_lines g)"
    and "0 < E_lines g"
    and "\<forall>j<nat (E_lines g). valid (cache st ! k ! j) \<noteq> 0"
  defines "v \<equiv> findLeastRecentlyUsed g k (cache st)"
  shows "updateCache g k t operation st =
    (True,
     \<lparr>cache = (cache st)[k := access_row v
         \<lparr>valid = 1, tag = t, dirty = (if operation = CHR ''S'' then 1 else 0), lastUsed = 0\<rparr>
         (cache st ! k)],
      stats = (stats st)\<lparr>
        dirty_evictions := dirty_evictions (stats st) +
           (if dirty (cache st ! k ! v) \<noteq> 0 then blockSize g else 0),
        dirty_bytes := dirty_bytes (stats st) -
           (if dirty (cache st ! k ! v) \<noteq> 0 then blockSize g else 0) +
           (if operation = CHR ''S'' then blockSize g else 0)\<rparr>\<rparr>)"
proof -
  have v: "v < length (cache st ! k)"
    unfolding v_def using findLeastRecentlyUsed_max(1) [OF assms(3,2)] assms(2) by simp
  show ?thesis
    using assms(1) v
    by (simp add: updateCache_def updateCache_install_full [OF assms(4)]
        updateCache_evict_row [OF assms(1,2,3)] v_def [symmetric] set_line_same
        nth_access_row access_row_update)
qed

lemma updateData_hit:
  assumes "decode g addr = Inr (si, t)"
    and "unat si < length (cache st)" and "length (cache st ! unat si) = nat (E_lines g)"
    and "i < nat (E_lines g)"
    and "valid (cache st ! unat si ! i) = 1" and "tag (cache st ! unat si ! i) = t"
    and "\<forall>j<i. \<not> (valid (cache st ! unat si ! j) = 1 \<and> tag (cache st ! unat si ! j) = t)"
  shows "updateData g addr operation st =
    Inr \<lparr>cache = (cache st)[unat si := access_row i
           \<lparr>valid = 1, tag = t,
            dirty = (if operation = CHR ''S'' \<and> dirty (cache st ! unat si ! i) = 0
                     then 1 else dirty (cache st ! unat si ! i)),
            lastUsed = 0\<rparr>
           (cache st ! unat si)],
         stats = \<lparr>hits = hits (stats st) + 1,
                  misses = misses (stats st),
                  evictions = evictions (stats st),
                  dirty_bytes = dirty_bytes (stats st) +
                    (if operation = CHR ''S'' \<and> dirty (cache st ! unat si ! i) = 0
                     then blockSize g else 0),
                  dirty_evictions = dirty_evictions (stats st)\<rparr>\<rparr>"
  unfolding updateData_def assms(1)
  by (simp add: isMiss_hit [OF assms(2-7)])

lemma updateData_free:
  assumes "decode g addr = Inr (si, t)"
    and "unat si < length (cache st)" and "length (cache st ! unat si) = nat (E_lines g)"
    and "\<forall>j<nat (E_lines g).
           \<not> (valid (cache st ! unat si ! j) = 1 \<and> tag (cache st ! unat si ! j) = t)"
    and "i < nat (E_lines g)" and "valid (cache st ! unat si ! i) = 0"
    and "\<forall>j<i. valid (cache st ! unat si ! j) \<noteq> 0"
  shows "updateData g addr operation st =
    Inr \<lparr>cache = (cache st)[unat si := access_row i
           \<lparr>valid = 1, tag = t, dirty = (if operation = CHR ''S'' then 1 else 0), lastUsed = 0\<rparr>
           (cache st ! unat si)],
         stats = \<lparr>hits = hits (stats st),
                  misses = misses (stats st) + 1,
                  evictions = evictions (stats st),
                  dirty_bytes = dirty_bytes (stats st) +
                    (if operation = CHR ''S'' then blockSize g else 0),
                  dirty_evictions = dirty_evictions (stats st)\<rparr>\<rparr>"
proof -
  let ?st2 = "st\<lparr>stats := (stats st)\<lparr>misses := misses (stats st) + 1\<rparr>\<rparr>"
  have uc: "updateCache g (unat si) t operation ?st2 =
    (False,
     \<lparr>cache = (cache ?st2)[unat si := access_row i
         \<lparr>valid = 1, tag = t, dirty = (if operation = CHR ''S'' then 1 else 0), lastUsed = 0\<rparr>
         (cache ?st2 ! unat si)],
      stats = (stats ?st2)\<lparr>dirty_bytes := dirty_bytes (stats ?st2) +
         (if operation = CHR ''S'' then blockSize g else 0)\<rparr>\<rparr>)"
    using assms(2,3,5,6,7) by (intro updateCache_free) simp_all
  show ?thesis
    unfolding updateData_def assms(1)
    by (simp add: isMiss_miss [OF assms(4)] uc)
qed

lemma updateData_full:
  assumes "decode g addr = Inr (si, t)"
    and "unat si < length (cache st)" and "length (cache st ! unat si) = nat (E_lines g)"
    and "0 < E_lines g"
    and "\<forall>j<nat (E_lines g).
           \<not> (valid (cache st ! unat si ! j) = 1 \<and> tag (cache st ! unat si ! j) = t)"
    and "\<forall>j<nat (E_lines g). valid (cache st ! unat si ! j) \<noteq> 0"
  defines "v \<equiv> findLeastRecentlyUsed g (unat si) (cache st)"
  shows "updateData g addr operation st =
    Inr \<lparr>cache = (cache st)[unat si := access_row v
           \<lparr>valid = 1, tag = t, dirty = (if operation = CHR ''S'' then 1 else 0), lastUsed = 0\<rparr>
           (cache st ! unat si)],
         stats = \<lparr>hits = hits (stats st),
                  misses = misses (stats st) + 1,
                  evictions = evictions (stats st) + 1,
                  dirty_bytes = dirty_bytes (stats st) -
                    (if dirty (cache st ! unat si ! v) \<noteq> 0 then blockSize g else 0) +
                    (if operation = CHR ''S'' then blockSize g else 0),
                  dirty_evictions = dirty_evictions (stats st) +
                    (if dirty (cache st ! unat si ! v) \<noteq> 0 then blockSize g else 0)\<rparr>\<rparr>"
proof -
  let ?st2 = "st\<lparr>stats := (stats st)\<lparr>misses := misses (stats st) + 1\<rparr>\<rparr>"
  have c2: "cache ?st2 = cache st" by simp
  have p: "unat si < length (cache ?st2)" "length (cache ?st2 ! unat si) = nat (E_lines g)"
    "\<forall>j<nat (E_lines g). valid (cache ?st2 ! unat si ! j) \<noteq> 0"
    using assms(2,3,6) by simp_all
  note uc = updateCache_full [OF p(1,2) assms(4) p(3), of t operation, unfolded c2, folded v_def]
  show ?thesis
    unfolding updateData_def assms(1)
    by (simp add: isMiss_miss [OF assms(5)] uc)
qed

lemma first_index:
  assumes "\<exists>j<n::nat. P j"
  shows "\<exists>i<n. P i \<and> (\<forall>j<i. \<not> P j)"
proof (cases "List.find P [0..<n]")
  case None
  then show ?thesis using assms find_upt_NoneD [of P n] by blast
next
  case (Some i)
  then show ?thesis using find_upt_SomeD [of P n i] by blast
qed

lemma updateData_summary:
  assumes dec: "decode g addr = Inr (si, t)"
    and k: "unat si < length (cache st)" and len: "length (cache st ! unat si) = nat (E_lines g)"
    and E: "0 < E_lines g"
    and vals: "\<forall>j<nat (E_lines g). valid (cache st ! unat si ! j) = 0 \<or> valid (cache st ! unat si ! j) = 1"
  shows "\<exists>i l st'. updateData g addr operation st = Inr st' \<and> i < nat (E_lines g)
           \<and> valid l = 1 \<and> tag l = t \<and> lastUsed l = 0
           \<and> cache st' = (cache st)[unat si := access_row i l (cache st ! unat si)]
           \<and> dirty_bytes (stats st') = dirty_bytes (stats st)
                 - (if is_dirty (cache st ! unat si ! i) then blockSize g else 0)
                 + (if is_dirty l then blockSize g else 0)"
proof -
  let ?r = "cache st ! unat si"
  let ?hit = "\<lambda>j. valid (?r ! j) = 1 \<and> tag (?r ! j) = t"
  show ?thesis
  proof (cases "\<exists>j<nat (E_lines g). ?hit j")
    case True
    from first_index [OF this] obtain i where
      i: "i < nat (E_lines g)" "?hit i" "\<forall>j<i. \<not> ?hit j" by blast
    from i(2) have v: "valid (?r ! i) = 1" and tg: "tag (?r ! i) = t" by simp_all
    note r = updateData_hit [OF dec k len i(1) v tg i(3), of operation]
    show ?thesis
      apply (intro exI conjI)
            apply (rule r)
           apply (rule i(1))
      using v by (auto simp: is_dirty_def)
  next
    case miss: False
    then have miss': "\<forall>j<nat (E_lines g). \<not> ?hit j" by blast
    show ?thesis
    proof (cases "\<exists>j<nat (E_lines g). valid (?r ! j) = 0")
      case True
      from first_index [OF this] obtain i where
        i: "i < nat (E_lines g)" "valid (?r ! i) = 0" "\<forall>j<i. valid (?r ! j) \<noteq> 0" by blast
      note r = updateData_free [OF dec k len miss' i, of operation]
      show ?thesis
        apply (intro exI conjI)
              apply (rule r)
             apply (rule i(1))
        using i(2) by (auto simp: is_dirty_def)
    next
      case False
      then have full: "\<forall>j<nat (E_lines g). valid (?r ! j) \<noteq> 0" by blast
      let ?v = "findLeastRecentlyUsed g (unat si) (cache st)"
      have v: "?v < nat (E_lines g)"
        by (rule findLeastRecentlyUsed_max(1) [OF E len])
      then have v1: "valid (?r ! ?v) = 1" using full vals by blast
      note r = updateData_full [OF dec k len E miss' full, of operation]
      show ?thesis
        apply (intro exI conjI)
              apply (rule r)
             apply (rule v)
        using v1 by (auto simp: is_dirty_def)
    qed
  qed
qed

subsection \<open>Counting the dirty lines\<close>

lemma sum_list_map_update:
  fixes f :: "'a \<Rightarrow> nat"
  shows "i < length xs \<Longrightarrow> sum_list (map f (xs[i := y])) + f (xs ! i) = sum_list (map f xs) + f y"
proof (induction xs arbitrary: i)
  case Nil
  then show ?case by simp
next
  case (Cons x xs)
  then show ?case by (cases i) (auto simp: algebra_simps)
qed

lemma access_row_as_update:
  "i < length r \<Longrightarrow>
   access_row i l r = (map (\<lambda>x. x\<lparr>lastUsed := incr_long (lastUsed x)\<rparr>) r)[i := l]"
  by (intro nth_equalityI) (auto simp: nth_access_row nth_list_update)

lemma is_dirty_aged [simp]: "is_dirty (l\<lparr>lastUsed := n\<rparr>) = is_dirty l"
  by (simp add: is_dirty_def)

lemma row_weight_access:
  fixes B :: nat
  assumes "i < length r"
  shows "(\<Sum>l\<leftarrow>access_row i l' r. if is_dirty l then B else 0) + (if is_dirty (r ! i) then B else 0)
       = (\<Sum>l\<leftarrow>r. if is_dirty l then B else 0) + (if is_dirty l' then B else 0)"
proof -
  let ?w = "\<lambda>l. if is_dirty l then B else 0"
  let ?aged = "map (\<lambda>x. x\<lparr>lastUsed := incr_long (lastUsed x)\<rparr>) r"
  have i: "i < length ?aged" using assms by simp
  have same: "sum_list (map ?w ?aged) = sum_list (map ?w r)"
    by (simp add: comp_def)
  have at_i: "?w (?aged ! i) = ?w (r ! i)"
    using assms by simp
  have "sum_list (map ?w (?aged[i := l'])) + ?w (?aged ! i) = sum_list (map ?w ?aged) + ?w l'"
    by (rule sum_list_map_update [OF i])
  then show ?thesis
    unfolding access_row_as_update [OF assms] same at_i .
qed

lemma dirty_total_rows:
  "dirty_total g c = (\<Sum>r\<leftarrow>c. \<Sum>l\<leftarrow>r. if is_dirty l then 2 ^ nat (b_bits g) else 0)"
  unfolding dirty_total_def by (induction c) simp_all

lemma dirty_total_access:
  assumes "k < length c" and "i < length (c ! k)"
  shows "dirty_total g (c[k := access_row i l' (c ! k)])
           + (if is_dirty (c ! k ! i) then 2 ^ nat (b_bits g) else 0)
       = dirty_total g c + (if is_dirty l' then 2 ^ nat (b_bits g) else 0)"
proof -
  let ?B = "2 ^ nat (b_bits g) :: nat"
  let ?F = "\<lambda>r. \<Sum>l\<leftarrow>r. if is_dirty l then ?B else 0"
  have "sum_list (map ?F (c[k := access_row i l' (c ! k)])) + ?F (c ! k)
      = sum_list (map ?F c) + ?F (access_row i l' (c ! k))"
    by (rule sum_list_map_update [OF assms(1)])
  moreover have "?F (access_row i l' (c ! k)) + (if is_dirty (c ! k ! i) then ?B else 0)
      = ?F (c ! k) + (if is_dirty l' then ?B else 0)"
    by (rule row_weight_access [OF assms(2)])
  ultimately show ?thesis
    unfolding dirty_total_rows by linarith
qed

lemma weight_le:
  fixes B :: nat
  shows "(\<Sum>l\<leftarrow>xs. if P l then B else 0) \<le> length xs * B"
  by (induction xs) auto

lemma length_concat_rows:
  "\<forall>r\<in>set c. length r = n \<Longrightarrow> length (concat c) = length c * n"
  by (induction c) auto

subsection \<open>What every state of a run satisfies\<close>

lemma lines_ok_rows:
  assumes "lines_ok g c"
  shows "length c = 2 ^ nat (s_bits g)" and "\<forall>r\<in>set c. length r = nat (E_lines g)"
  using assms by (auto simp: lines_ok_def in_set_conv_nth)

lemma dirty_total_le:
  assumes "lines_ok g c"
  shows "dirty_total g c \<le> nat (E_lines g) * 2 ^ nat (s_bits g) * 2 ^ nat (b_bits g)"
proof -
  have "dirty_total g c \<le> length (concat c) * 2 ^ nat (b_bits g)"
    unfolding dirty_total_def by (rule weight_le)
  also have "length (concat c) = 2 ^ nat (s_bits g) * nat (E_lines g)"
    using length_concat_rows [OF lines_ok_rows(2) [OF assms]] lines_ok_rows(1) [OF assms] by simp
  finally show ?thesis by (simp add: mult.commute)
qed

lemma lines_ok_access:
  assumes "lines_ok g c" and "k < length c" and "i < nat (E_lines g)"
    and "valid l = 1" and "lastUsed l = 0"
  shows "lines_ok g (c[k := access_row i l (c ! k)])"
  using assms
  by (auto simp: lines_ok_def nth_list_update nth_access_row)

lemma updateData_InrD:
  assumes "updateData g addr operation st = Inr st'"
  obtains si t where "decode g addr = Inr (si, t)"
  using assms by (cases "decode g addr") (auto simp: updateData_def)

lemma lines_okD:
  assumes "lines_ok g c" and "k < 2 ^ nat (s_bits g)"
  shows "k < length c" and "length (c ! k) = nat (E_lines g)"
    and "\<forall>j<nat (E_lines g). valid (c ! k ! j) = 0 \<or> valid (c ! k ! j) = 1"
  using assms by (simp_all add: lines_ok_def)

lemma blockSize_of_nat: "blockSize g = of_nat (2 ^ nat (b_bits g))"
  by (simp add: blockSize_def)

lemma sim_inv_step:
  assumes inv: "sim_inv g st" and E: "0 < E_lines g"
    and dec: "decode g addr = Inr (si, t)"
  shows "\<exists>st'. updateData g addr operation st = Inr st' \<and> sim_inv g st'"
proof -
  let ?k = "unat si"
  let ?c = "cache st"
  let ?B = "2 ^ nat (b_bits g) :: nat"
  have ok: "lines_ok g ?c" and db: "dirty_bytes (stats st) = of_nat (dirty_total g ?c)"
    using inv by (simp_all add: sim_inv_def)
  note k = lines_okD [OF ok decode_index_range [OF dec]]
  from updateData_summary [OF dec k(1,2) E k(3), of operation]
  obtain i l st' where
    ud: "updateData g addr operation st = Inr st'" and i: "i < nat (E_lines g)"
    and l: "valid l = 1" "lastUsed l = 0"
    and c': "cache st' = ?c[?k := access_row i l (?c ! ?k)]"
    and db': "dirty_bytes (stats st') = dirty_bytes (stats st)
                 - (if is_dirty (?c ! ?k ! i) then blockSize g else 0)
                 + (if is_dirty l then blockSize g else 0)"
    by blast
  have ok': "lines_ok g (cache st')"
    unfolding c' by (rule lines_ok_access [OF ok k(1) i l])
  have il: "i < length (?c ! ?k)" using i k(2) by simp
  have "dirty_total g (cache st') + (if is_dirty (?c ! ?k ! i) then ?B else 0)
       = dirty_total g ?c + (if is_dirty l then ?B else 0)"
    unfolding c' by (rule dirty_total_access [OF k(1) il])
  then have "(of_nat (dirty_total g (cache st') + (if is_dirty (?c ! ?k ! i) then ?B else 0)) :: 64 word)
       = of_nat (dirty_total g ?c + (if is_dirty l then ?B else 0))"
    by simp
  then have "(of_nat (dirty_total g (cache st')) :: 64 word)
       = of_nat (dirty_total g ?c) - (if is_dirty (?c ! ?k ! i) then blockSize g else 0)
         + (if is_dirty l then blockSize g else 0)"
    by (simp add: blockSize_of_nat algebra_simps split: if_splits)
  then have "dirty_bytes (stats st') = of_nat (dirty_total g (cache st'))"
    using db db' by simp
  then show ?thesis using ud ok' by (auto simp: sim_inv_def)
qed

lemma sim_inv_updateData:
  assumes "sim_inv g st" and "0 < E_lines g" and "updateData g addr operation st = Inr st'"
  shows "sim_inv g st'"
proof -
  from assms(3) obtain si t where dec: "decode g addr = Inr (si, t)"
    by (rule updateData_InrD)
  from sim_inv_step [OF assms(1,2) dec, of operation] assms(3) show ?thesis by auto
qed

lemma sim_inv_run:
  assumes "sim_inv g st" and "0 < E_lines g" and "run g trace st = Inr st'"
  shows "sim_inv g st'"
  using assms
proof (induction g trace st rule: run.induct)
  case (1 g st)
  then show ?case by simp
next
  case (2 g operation addr sz rest st)
  show ?case
  proof (cases "operation = CHR ''L'' \<or> operation = CHR ''S''")
    case True
    with "2.prems"(3) obtain st1 where
      st1: "updateData g addr operation st = Inr st1" and r: "run g rest st1 = Inr st'"
      by (auto split: sum.splits)
    have "sim_inv g st1"
      by (rule sim_inv_updateData [OF "2.prems"(1,2) st1])
    then show ?thesis
      using "2.IH"(1) [OF True st1 _ "2.prems"(2) r] by simp
  next
    case False
    then show ?thesis using 2 by simp
  qed
qed

lemma run_total:
  assumes "sim_inv g st" and "0 < E_lines g"
    and "0 \<le> s_bits g" and "s_bits g < 31" and "0 \<le> b_bits g" and "s_bits g + b_bits g < 64"
  shows "\<exists>st'. run g trace st = Inr st'"
  using assms
proof (induction g trace st rule: run.induct)
  case (1 g st)
  then show ?case by simp
next
  case (2 g operation addr sz rest st)
  show ?case
  proof (cases "operation = CHR ''L'' \<or> operation = CHR ''S''")
    case True
    obtain si t where dec: "decode g addr = Inr (si, t)"
      using "2.prems"(3-6) by (simp add: decode_eq)
    from sim_inv_step [OF "2.prems"(1,2) dec, of operation] obtain st1 where
      st1: "updateData g addr operation st = Inr st1" and inv1: "sim_inv g st1" by blast
    from "2.IH"(1) [OF True st1 inv1 "2.prems"(2-6)] show ?thesis
      using True st1 by simp
  next
    case False
    then show ?thesis using 2 by simp
  qed
qed

lemma weight_none:
  fixes B :: nat
  shows "\<forall>l\<in>set xs. \<not> P l \<Longrightarrow> (\<Sum>l\<leftarrow>xs. if P l then B else 0) = 0"
  by (induction xs) auto

lemma init_lines_ok:
  assumes "0 \<le> s_bits g" and "init g junk = Inr c"
  shows "lines_ok g c" and "dirty_total g c = 0"
proof -
  have c: "c = map (\<lambda>i. map (\<lambda>j. \<lparr>valid = 0, tag = junk i j, dirty = 0, lastUsed = 0\<rparr>)
                            [0..<nat (E_lines g)]) [0..<2 ^ nat (s_bits g)]"
    using assms by (simp add: init_def split: if_splits)
  show "lines_ok g c"
    unfolding c by (simp add: lines_ok_def)
  have "\<forall>l\<in>set (concat c). \<not> is_dirty l"
    unfolding c by (auto simp: is_dirty_def)
  then show "dirty_total g c = 0"
    unfolding dirty_total_def by (rule weight_none)
qed

lemma main_InrD:
  assumes "main g junk trace = Inr st"
  shows "sim_inv g st" and "0 < E_lines g" and "0 \<le> s_bits g" and "s_bits g < 31"
    and "0 \<le> b_bits g" and "s_bits g + b_bits g \<le> 64"
proof -
  from assms have p: "parseArgument g = Inr g"
    by (auto simp: main_def parseArgument_def split: sum.splits if_splits)
  then show E: "0 < E_lines g" and s: "0 \<le> s_bits g" and "0 \<le> b_bits g"
    and "s_bits g + b_bits g \<le> 64"
    by (auto simp: parseArgument_def split: if_splits)
  from assms p obtain c where c: "init g junk = Inr c"
    and r: "run g trace \<lparr>cache = c, stats = stats0\<rparr> = Inr st"
    by (auto simp: main_def split: sum.splits)
  from c show "s_bits g < 31" by (simp add: init_def split: if_splits)
  have "sim_inv g \<lparr>cache = c, stats = stats0\<rparr>"
    using init_lines_ok [OF s c] by (simp add: sim_inv_def stats0_def)
  then show "sim_inv g st" by (rule sim_inv_run [OF _ E r])
qed

lemma run_append:
  "run g (xs @ ys) st = (case run g xs st of Inl e \<Rightarrow> Inl e | Inr st1 \<Rightarrow> run g ys st1)"
  by (induction g xs st rule: run.induct) (auto split: sum.splits)

lemma main_prefix:
  assumes "main g junk (before @ rest) = Inr st_end"
  shows "\<exists>st. main g junk before = Inr st"
  using assms by (auto simp: main_def run_append split: sum.splits)

text \<open>
  On every geometry that \<open>parseArgument\<close> accepts and that has \<open>s \<le> 30\<close> and \<open>s + b \<le> 63\<close>
  the run over any trace is defined and ends in a state.
\<close>

lemma main_total:
  assumes "0 \<le> s_bits g" and "s_bits g < 31" and "0 < E_lines g" and "0 \<le> b_bits g"
    and "s_bits g + b_bits g < 64"
  shows "\<exists>st. main g junk trace = Inr st"
proof -
  obtain c where c: "init g junk = Inr c"
    using assms(2) by (simp add: init_def)
  have "sim_inv g \<lparr>cache = c, stats = stats0\<rparr>"
    using init_lines_ok [OF assms(1) c] by (simp add: sim_inv_def stats0_def)
  from run_total [OF this assms(3,1,2,4,5)] show ?thesis
    using assms c by (simp add: main_def parseArgument_def)
qed

subsection \<open>Hits and misses\<close>

lemma isMiss_counters:
  "hits (stats (snd (isMiss g k t operation st))) = hits (stats st)
   \<and> misses (stats (snd (isMiss g k t operation st))) = misses (stats st)"
  by (simp add: isMiss_def Let_def split: option.splits)

lemma updateCache_counters:
  "hits (stats (snd (updateCache g k t operation st))) = hits (stats st)
   \<and> misses (stats (snd (updateCache g k t operation st))) = misses (stats st)"
  by (simp add: updateCache_def updateCache_install_def updateCache_evict_def Let_def
      split: option.splits prod.splits)

lemma updateData_counters:
  assumes "updateData g addr operation st = Inr st'"
  shows "hits (stats st') = hits (stats st) + 1 \<and> misses (stats st') = misses (stats st)
       \<or> hits (stats st') = hits (stats st) \<and> misses (stats st') = misses (stats st) + 1"
proof -
  from assms obtain si t where dec: "decode g addr = Inr (si, t)"
    by (rule updateData_InrD)
  obtain miss st1 where m: "isMiss g (unat si) t operation st = (miss, st1)"
    by (cases "isMiss g (unat si) t operation st")
  have c1: "hits (stats st1) = hits (stats st)" "misses (stats st1) = misses (stats st)"
    using isMiss_counters [of g "unat si" t operation st] m by simp_all
  show ?thesis
  proof (cases miss)
    case False
    then show ?thesis using assms dec m c1 by (auto simp: updateData_def)
  next
    case True
    let ?st2 = "st1\<lparr>stats := (stats st1)\<lparr>misses := misses (stats st1) + 1\<rparr>\<rparr>"
    obtain full st3 where u: "updateCache g (unat si) t operation ?st2 = (full, st3)"
      by (cases "updateCache g (unat si) t operation ?st2")
    have c3: "hits (stats st3) = hits (stats st)" "misses (stats st3) = misses (stats st) + 1"
      using updateCache_counters [of g "unat si" t operation ?st2] u c1 by simp_all
    show ?thesis
      using assms dec m True u c3 by (auto simp: updateData_def split: if_splits)
  qed
qed

lemma count_accesses_simps [simp]:
  "count_accesses [] = 0"
  "count_accesses ((operation, addr, sz) # rest) =
     (if operation = CHR ''L'' \<or> operation = CHR ''S'' then Suc (count_accesses rest)
      else count_accesses rest)"
  by (simp_all add: count_accesses_def)

lemma unat_incr:
  fixes x :: "64 word"
  assumes "unat x + 1 < 2 ^ 64"
  shows "unat (x + 1) = unat x + 1"
  using assms unat_add_lem [of x 1] by simp

lemma run_counters_word:
  assumes "run g trace st = Inr st'"
  shows "hits (stats st') + misses (stats st')
       = hits (stats st) + misses (stats st) + of_nat (count_accesses trace)"
  using assms
proof (induction g trace st rule: run.induct)
  case (1 g st)
  then show ?case by simp
next
  case (2 g operation addr sz rest st)
  show ?case
  proof (cases "operation = CHR ''L'' \<or> operation = CHR ''S''")
    case True
    with "2.prems" obtain st1 where
      st1: "updateData g addr operation st = Inr st1" and r: "run g rest st1 = Inr st'"
      by (auto split: sum.splits)
    have "hits (stats st1) + misses (stats st1) = hits (stats st) + misses (stats st) + 1"
      using updateData_counters [OF st1] by auto
    then show ?thesis
      using "2.IH"(1) [OF True st1 r] True by simp
  next
    case False
    then show ?thesis using 2 by simp
  qed
qed

lemma run_counters_nat:
  assumes "run g trace st = Inr st'"
    and "unat (hits (stats st)) + unat (misses (stats st)) + count_accesses trace < 2 ^ 64"
  shows "unat (hits (stats st')) + unat (misses (stats st'))
       = unat (hits (stats st)) + unat (misses (stats st)) + count_accesses trace"
  using assms
proof (induction g trace st rule: run.induct)
  case (1 g st)
  then show ?case by simp
next
  case (2 g operation addr sz rest st)
  show ?case
  proof (cases "operation = CHR ''L'' \<or> operation = CHR ''S''")
    case True
    with "2.prems"(1) obtain st1 where
      st1: "updateData g addr operation st = Inr st1" and r: "run g rest st1 = Inr st'"
      by (auto split: sum.splits)
    have n: "count_accesses ((operation, addr, sz) # rest) = Suc (count_accesses rest)"
      using True by simp
    have small: "unat (hits (stats st)) + 1 < 2 ^ 64" "unat (misses (stats st)) + 1 < 2 ^ 64"
      using "2.prems"(2) unfolding n by simp_all
    have one: "unat (hits (stats st1)) + unat (misses (stats st1))
        = unat (hits (stats st)) + unat (misses (stats st)) + 1"
      using updateData_counters [OF st1] unat_incr [OF small(1)] unat_incr [OF small(2)]
      by auto
    have "unat (hits (stats st1)) + unat (misses (stats st1)) + count_accesses rest < 2 ^ 64"
      using "2.prems"(2) unfolding n one by simp
    from "2.IH"(1) [OF True st1 r this] show ?thesis
      unfolding n one by simp
  next
    case False
    then show ?thesis using 2 by simp
  qed
qed

lemma main_run:
  assumes "main g junk trace = Inr st"
  obtains c where "init g junk = Inr c" and "run g trace \<lparr>cache = c, stats = stats0\<rparr> = Inr st"
  using assms
  by (auto simp: main_def parseArgument_def split: sum.splits if_splits)

subsection \<open>Valid lines stay valid\<close>

lemma updateData_shape:
  assumes ok: "lines_ok g (cache st)" and E: "0 < E_lines g" and dec: "decode g addr = Inr (si, t)"
  shows "\<exists>i l st'. updateData g addr operation st = Inr st' \<and> i < nat (E_lines g)
           \<and> valid l = 1 \<and> lastUsed l = 0
           \<and> cache st' = (cache st)[unat si := access_row i l (cache st ! unat si)]"
proof -
  note k = lines_okD [OF ok decode_index_range [OF dec]]
  from updateData_summary [OF dec k(1,2) E k(3), of operation] show ?thesis by blast
qed

lemma lines_ok_updateData:
  assumes "lines_ok g (cache st)" and "0 < E_lines g" and "updateData g addr operation st = Inr st'"
  shows "lines_ok g (cache st')"
proof -
  from assms(3) obtain si t where dec: "decode g addr = Inr (si, t)" by (rule updateData_InrD)
  note k = lines_okD [OF assms(1) decode_index_range [OF dec]]
  from updateData_shape [OF assms(1,2) dec, of operation] assms(3)
  obtain i l where "i < nat (E_lines g)" "valid l = 1" "lastUsed l = 0"
    "cache st' = (cache st)[unat si := access_row i l (cache st ! unat si)]"
    by auto
  then show ?thesis using lines_ok_access [OF assms(1) k(1)] by simp
qed

lemma valid_kept_updateData:
  assumes "lines_ok g (cache st)" and "0 < E_lines g" and "updateData g addr operation st = Inr st'"
    and "k < 2 ^ nat (s_bits g)" and "i < nat (E_lines g)" and "valid (cache st ! k ! i) = 1"
  shows "valid (cache st' ! k ! i) = 1"
proof -
  from assms(3) obtain si t where dec: "decode g addr = Inr (si, t)" by (rule updateData_InrD)
  note k = lines_okD [OF assms(1) assms(4)]
  from updateData_shape [OF assms(1,2) dec, of operation] assms(3)
  obtain i' l where l: "valid l = 1"
    and c': "cache st' = (cache st)[unat si := access_row i' l (cache st ! unat si)]"
    by auto
  show ?thesis
  proof (cases "k = unat si")
    case True
    have "i < length (cache st ! k)" using k(2) assms(5) by simp
    then show ?thesis
      unfolding c' using True k(1) l assms(6) by (simp add: nth_access_row)
  next
    case False
    then show ?thesis
      unfolding c' using assms(6) by simp
  qed
qed

lemma valid_kept_run:
  assumes "lines_ok g (cache st)" and "0 < E_lines g" and "run g trace st = Inr st'"
    and "k < 2 ^ nat (s_bits g)" and "i < nat (E_lines g)" and "valid (cache st ! k ! i) = 1"
  shows "valid (cache st' ! k ! i) = 1"
  using assms
proof (induction g trace st rule: run.induct)
  case (1 g st)
  then show ?case by simp
next
  case (2 g operation addr sz rest st)
  show ?case
  proof (cases "operation = CHR ''L'' \<or> operation = CHR ''S''")
    case True
    with "2.prems"(3) obtain st1 where
      st1: "updateData g addr operation st = Inr st1" and r: "run g rest st1 = Inr st'"
      by (auto split: sum.splits)
    have ok1: "lines_ok g (cache st1)"
      by (rule lines_ok_updateData [OF "2.prems"(1,2) st1])
    have v1: "valid (cache st1 ! k ! i) = 1"
      by (rule valid_kept_updateData [OF "2.prems"(1,2) st1 "2.prems"(4,5,6)])
    show ?thesis
      by (rule "2.IH"(1) [OF True st1 ok1 "2.prems"(2) r "2.prems"(4,5) v1])
  next
    case False
    then show ?thesis using 2 by simp
  qed
qed

subsection \<open>The accessed line and the range of \<open>lastUsed\<close>\<close>

lemma incr_long_below: "x < 2 ^ 63 - 1 \<Longrightarrow> incr_long x = x + 1"
  by (simp add: incr_long_def)

lemma accessed_line_exists:
  assumes "0 < E_lines g" and "length (c ! k) = nat (E_lines g)"
  shows "\<exists>i. accessed_line g k t c i"
proof (cases "\<exists>j<nat (E_lines g). valid (c ! k ! j) = 1 \<and> tag (c ! k ! j) = t")
  case True
  from first_index [OF this] show ?thesis
    using True unfolding accessed_line_def by auto
next
  case hit: False
  show ?thesis
  proof (cases "\<exists>j<nat (E_lines g). valid (c ! k ! j) = 0")
    case True
    from first_index [OF this] show ?thesis
      using True hit unfolding accessed_line_def by auto
  next
    case False
    then show ?thesis
      using hit findLeastRecentlyUsed_max(1) [OF assms] unfolding accessed_line_def by auto
  qed
qed

lemma accessed_line_step:
  assumes dec: "decode g addr = Inr (si, t)"
    and k: "unat si < length (cache st)" and len: "length (cache st ! unat si) = nat (E_lines g)"
    and E: "0 < E_lines g"
    and acc: "accessed_line g (unat si) t (cache st) i"
  shows "\<exists>l st'. updateData g addr operation st = Inr st' \<and> lastUsed l = 0
           \<and> cache st' = (cache st)[unat si := access_row i l (cache st ! unat si)]"
proof -
  let ?r = "cache st ! unat si"
  let ?hit = "\<lambda>j. valid (?r ! j) = 1 \<and> tag (?r ! j) = t"
  have i: "i < nat (E_lines g)" using acc by (simp add: accessed_line_def)
  show ?thesis
  proof (cases "\<exists>j<nat (E_lines g). ?hit j")
    case True
    with acc have h: "valid (?r ! i) = 1" "tag (?r ! i) = t" "\<forall>j<i. \<not> ?hit j"
      by (simp_all add: accessed_line_def)
    note r = updateData_hit [OF dec k len i h, of operation]
    show ?thesis
      by (intro exI conjI, rule r) simp_all
  next
    case miss: False
    then have miss': "\<forall>j<nat (E_lines g). \<not> ?hit j" by blast
    show ?thesis
    proof (cases "\<exists>j<nat (E_lines g). valid (?r ! j) = 0")
      case True
      with acc miss have f: "valid (?r ! i) = 0" "\<forall>j<i. valid (?r ! j) \<noteq> 0"
        by (simp_all add: accessed_line_def)
      note r = updateData_free [OF dec k len miss' i f, of operation]
      show ?thesis
        by (intro exI conjI, rule r) simp_all
    next
      case False
      with acc miss have v: "i = findLeastRecentlyUsed g (unat si) (cache st)"
        by (simp add: accessed_line_def)
      from False have full: "\<forall>j<nat (E_lines g). valid (?r ! j) \<noteq> 0" by blast
      note r = updateData_full [OF dec k len E miss' full, of operation, folded v]
      show ?thesis
        by (intro exI conjI, rule r) simp_all
    qed
  qed
qed

lemma ages_within_access:
  assumes "ages_within n c" and "int n < 2 ^ 63 - 1" and "lastUsed l = 0"
  shows "ages_within (Suc n) (c[k := access_row i l (c ! k)])"
  unfolding ages_within_def
proof (intro allI impI)
  fix k' j
  assume k': "k' < length (c[k := access_row i l (c ! k)])"
    and j: "j < length (c[k := access_row i l (c ! k)] ! k')"
  show "0 \<le> lastUsed (c[k := access_row i l (c ! k)] ! k' ! j)
      \<and> lastUsed (c[k := access_row i l (c ! k)] ! k' ! j) \<le> int (Suc n)"
  proof (cases "k' = k")
    case True
    then have jl: "j < length (c ! k)" and kl: "k < length c" using k' j by simp_all
    then have old: "0 \<le> lastUsed (c ! k ! j)" "lastUsed (c ! k ! j) \<le> int n"
      using assms(1) by (simp_all add: ages_within_def)
    then have "incr_long (lastUsed (c ! k ! j)) = lastUsed (c ! k ! j) + 1"
      using assms(2) by (intro incr_long_below) simp
    then show ?thesis
      using True kl jl old assms(3) by (simp add: nth_access_row)
  next
    case False
    then have "k' < length c" "j < length (c ! k')" using k' j by simp_all
    then have "0 \<le> lastUsed (c ! k' ! j)" "lastUsed (c ! k' ! j) \<le> int n"
      using assms(1) by (simp_all add: ages_within_def)
    then show ?thesis
      using False by simp
  qed
qed

lemma ages_within_updateData:
  assumes "lines_ok g (cache st)" and "0 < E_lines g" and "ages_within n (cache st)"
    and "int n < 2 ^ 63 - 1" and "updateData g addr operation st = Inr st'"
  shows "ages_within (Suc n) (cache st')"
proof -
  from assms(5) obtain si t where dec: "decode g addr = Inr (si, t)" by (rule updateData_InrD)
  from updateData_shape [OF assms(1,2) dec, of operation] assms(5)
  obtain i l where "lastUsed l = 0"
    "cache st' = (cache st)[unat si := access_row i l (cache st ! unat si)]"
    by auto
  then show ?thesis using ages_within_access [OF assms(3,4)] by simp
qed

lemma ages_within_run:
  assumes "lines_ok g (cache st)" and "0 < E_lines g" and "ages_within n (cache st)"
    and "int (n + count_accesses trace) \<le> 2 ^ 63 - 1" and "run g trace st = Inr st'"
  shows "ages_within (n + count_accesses trace) (cache st')"
  using assms
proof (induction g trace st arbitrary: n rule: run.induct)
  case (1 g st)
  then show ?case by simp
next
  case (2 g operation addr sz rest st)
  show ?case
  proof (cases "operation = CHR ''L'' \<or> operation = CHR ''S''")
    case True
    with "2.prems"(5) obtain st1 where
      st1: "updateData g addr operation st = Inr st1" and r: "run g rest st1 = Inr st'"
      by (auto split: sum.splits)
    have c: "count_accesses ((operation, addr, sz) # rest) = Suc (count_accesses rest)"
      using True by simp
    have ok1: "lines_ok g (cache st1)"
      by (rule lines_ok_updateData [OF "2.prems"(1,2) st1])
    have small: "int n < 2 ^ 63 - 1"
      using "2.prems"(4) unfolding c by simp
    have a1: "ages_within (Suc n) (cache st1)"
      by (rule ages_within_updateData [OF "2.prems"(1,2,3) small st1])
    have b1: "int (Suc n + count_accesses rest) \<le> 2 ^ 63 - 1"
      using "2.prems"(4) unfolding c by simp
    from "2.IH"(1) [OF True st1 ok1 "2.prems"(2) a1 b1 r] show ?thesis
      unfolding c by simp
  next
    case False
    then show ?thesis using 2 by simp
  qed
qed

lemma main_ages_within:
  assumes "main g junk trace = Inr st" and "int (count_accesses trace) \<le> 2 ^ 63 - 1"
  shows "ages_within (count_accesses trace) (cache st)"
proof -
  from assms(1) obtain c where c: "init g junk = Inr c"
    and r: "run g trace \<lparr>cache = c, stats = stats0\<rparr> = Inr st"
    by (rule main_run)
  note g = main_InrD(2,3) [OF assms(1)]
  have ok: "lines_ok g (cache \<lparr>cache = c, stats = stats0\<rparr>)"
    using init_lines_ok(1) [OF g(2) c] by simp
  have c': "c = map (\<lambda>i. map (\<lambda>j. \<lparr>valid = 0, tag = junk i j, dirty = 0, lastUsed = 0\<rparr>)
                            [0..<nat (E_lines g)]) [0..<2 ^ nat (s_bits g)]"
    using g(2) c by (simp add: init_def split: if_splits)
  have a0: "ages_within 0 (cache \<lparr>cache = c, stats = stats0\<rparr>)"
    unfolding c' by (simp add: ages_within_def)
  from ages_within_run [OF ok g(1) a0 _ r] assms(2) show ?thesis by simp
qed

section \<open>The claims\<close>





text \<open>
  C3. In a set of \<open>E \<ge> 1\<close> lines, \<open>findLeastRecentlyUsed\<close> returns an index of the set
  whose \<open>lastUsed\<close> is maximal in the set, and every line stored before it has a strictly
  smaller \<open>lastUsed\<close>: of the lines that share the maximal value, the one with the lowest
  storage index is returned.
\<close>

theorem findLeastRecentlyUsed_lowest_max:
  assumes "0 < E_lines g" and "length (c ! k) = nat (E_lines g)"
  shows "findLeastRecentlyUsed g k c < nat (E_lines g)
       \<and> (\<forall>j<nat (E_lines g). lastUsed (c ! k ! j) \<le> lastUsed (c ! k ! findLeastRecentlyUsed g k c))
       \<and> (\<forall>j<nat (E_lines g).
             lastUsed (c ! k ! j) = lastUsed (c ! k ! findLeastRecentlyUsed g k c)
             \<longrightarrow> findLeastRecentlyUsed g k c \<le> j)"
proof -
  let ?v = "findLeastRecentlyUsed g k c"
  have lower: "\<forall>j<?v. lastUsed (c ! k ! j) < lastUsed (c ! k ! ?v)"
    by (rule findLeastRecentlyUsed_max(3) [OF assms])
  have "?v \<le> j" if "lastUsed (c ! k ! j) = lastUsed (c ! k ! ?v)" for j
  proof (rule ccontr)
    assume "\<not> ?v \<le> j"
    then have "lastUsed (c ! k ! j) < lastUsed (c ! k ! ?v)" using lower by simp
    then show False using that by simp
  qed
  then show ?thesis
    using findLeastRecentlyUsed_max(1,2) [OF assms] by blast
qed

theorem findLeastRecentlyUsed_lowest_max_witness:
  "0 < E_lines ex_lru_config
   \<and> length (ex_lru_cache ! 0) = nat (E_lines ex_lru_config)
   \<and> findLeastRecentlyUsed ex_lru_config 0 ex_lru_cache = 1"
proof -
  have h1: "0 < E_lines ex_lru_config"
    by (simp add: ex_lru_config_def)
  have h2: "length (ex_lru_cache ! 0) = nat (E_lines ex_lru_config)"
    by (simp add: ex_lru_config_def ex_lru_cache_def)
  let ?v = "findLeastRecentlyUsed ex_lru_config 0 ex_lru_cache"
  have n: "nat (E_lines ex_lru_config) = 3"
    by (simp add: ex_lru_config_def)
  note th = findLeastRecentlyUsed_lowest_max [OF h1 h2, unfolded n]
  have v: "?v < 3" using th by blast
  have ge: "lastUsed (ex_lru_cache ! 0 ! 1) \<le> lastUsed (ex_lru_cache ! 0 ! ?v)"
    using th by simp
  have low: "lastUsed (ex_lru_cache ! 0 ! 1) = lastUsed (ex_lru_cache ! 0 ! ?v) \<Longrightarrow> ?v \<le> 1"
    using th by simp
  from v have "?v = 0 \<or> ?v = 1 \<or> ?v = 2" by arith
  then have "?v = 1"
  proof (elim disjE)
    assume "?v = 0"
    with ge show ?thesis by (simp add: ex_lru_cache_def)
  next
    assume "?v = 1"
    then show ?thesis .
  next
    assume "?v = 2"
    with low show ?thesis by (simp add: ex_lru_cache_def)
  qed
  with h1 h2 show ?thesis by simp
qed

text \<open>
  C4. \<open>updateLastUsed\<close> on line \<open>i\<close> of a set sets \<open>lastUsed\<close> of line \<open>i\<close> to \<open>0\<close> and
  increments \<open>lastUsed\<close> of every other line of the set: by exactly one, except that a
  counter at \<open>LONG_MAX\<close> wraps. At any point of a run that has made fewer than \<open>2^63 - 1\<close>
  accesses, a further load or store goes to one line of the set its address selects: the
  line it hits, else the first invalid line, else the victim. That line gets
  \<open>lastUsed = 0\<close>, every other line of the set gets exactly one more, no counter leaves
  the range of a \<open>long\<close>, and afterwards the accessed line is the only line of the set
  with \<open>lastUsed = 0\<close>.
\<close>

theorem access_resets_one_line_and_ages_the_rest:
  "(k < length c \<and> length (c ! k) = nat (E_lines g) \<and> i < nat (E_lines g) \<longrightarrow>
      (\<forall>j<nat (E_lines g).
         lastUsed (updateLastUsed g k i c ! k ! j)
           = (if j = i then 0
              else if lastUsed (c ! k ! j) = 2 ^ 63 - 1 then - (2 ^ 63)
              else lastUsed (c ! k ! j) + 1)))
   \<and> (main g junk before = Inr st \<and> int (count_accesses before) < 2 ^ 63 - 1
        \<and> decode g addr = Inr (si, t) \<longrightarrow>
      (\<exists>st'. updateData g addr operation st = Inr st'
         \<and> (\<exists>a. accessed_line g (unat si) t (cache st) a)
         \<and> (\<forall>a. accessed_line g (unat si) t (cache st) a \<longrightarrow>
               (\<forall>j<nat (E_lines g).
                  lastUsed (cache st' ! unat si ! j)
                    = (if j = a then 0 else lastUsed (cache st ! unat si ! j) + 1))
             \<and> (\<forall>j<nat (E_lines g). lastUsed (cache st' ! unat si ! j) = 0 \<longleftrightarrow> j = a)
             \<and> (\<forall>j<nat (E_lines g).
                  0 \<le> lastUsed (cache st' ! unat si ! j)
                  \<and> lastUsed (cache st' ! unat si ! j) < 2 ^ 63))))"
proof -
  have one: "\<forall>j<nat (E_lines g).
         lastUsed (updateLastUsed g k i c ! k ! j)
           = (if j = i then 0
              else if lastUsed (c ! k ! j) = 2 ^ 63 - 1 then - (2 ^ 63)
              else lastUsed (c ! k ! j) + 1)"
    if "k < length c" "length (c ! k) = nat (E_lines g)" "i < nat (E_lines g)"
    using that by (simp add: updateLastUsed_row nth_access_row incr_long_def)
  have two: "\<exists>st'. updateData g addr operation st = Inr st'
         \<and> (\<exists>a. accessed_line g (unat si) t (cache st) a)
         \<and> (\<forall>a. accessed_line g (unat si) t (cache st) a \<longrightarrow>
               (\<forall>j<nat (E_lines g).
                  lastUsed (cache st' ! unat si ! j)
                    = (if j = a then 0 else lastUsed (cache st ! unat si ! j) + 1))
             \<and> (\<forall>j<nat (E_lines g). lastUsed (cache st' ! unat si ! j) = 0 \<longleftrightarrow> j = a)
             \<and> (\<forall>j<nat (E_lines g).
                  0 \<le> lastUsed (cache st' ! unat si ! j)
                  \<and> lastUsed (cache st' ! unat si ! j) < 2 ^ 63))"
    if reach: "main g junk before = Inr st" and few: "int (count_accesses before) < 2 ^ 63 - 1"
      and dec: "decode g addr = Inr (si, t)"
  proof -
    let ?k = "unat si"
    have ok: "lines_ok g (cache st)" and E: "0 < E_lines g"
      using main_InrD(1,2) [OF reach] by (simp_all add: sim_inv_def)
    note kk = lines_okD [OF ok decode_index_range [OF dec]]
    have ages: "ages_within (count_accesses before) (cache st)"
      using main_ages_within [OF reach] few by simp
    have old: "0 \<le> lastUsed (cache st ! ?k ! j) \<and> lastUsed (cache st ! ?k ! j) < 2 ^ 63 - 1"
      if "j < nat (E_lines g)" for j
      using ages kk(1,2) that few by (fastforce simp: ages_within_def)
    from updateData_shape [OF ok E dec, of operation]
    obtain st' where ud: "updateData g addr operation st = Inr st'" by blast
    have ex: "\<exists>a. accessed_line g ?k t (cache st) a"
      by (rule accessed_line_exists [OF E kk(2)])
    have each: "(\<forall>j<nat (E_lines g).
                  lastUsed (cache st' ! ?k ! j)
                    = (if j = a then 0 else lastUsed (cache st ! ?k ! j) + 1))
             \<and> (\<forall>j<nat (E_lines g). lastUsed (cache st' ! ?k ! j) = 0 \<longleftrightarrow> j = a)
             \<and> (\<forall>j<nat (E_lines g).
                  0 \<le> lastUsed (cache st' ! ?k ! j) \<and> lastUsed (cache st' ! ?k ! j) < 2 ^ 63)"
      if acc: "accessed_line g ?k t (cache st) a" for a
    proof -
      from accessed_line_step [OF dec kk(1,2) E acc, of operation] ud
      obtain l where l: "lastUsed l = 0"
        and c': "cache st' = (cache st)[?k := access_row a l (cache st ! ?k)]"
        by auto
      have lu: "lastUsed (cache st' ! ?k ! j)
                    = (if j = a then 0 else lastUsed (cache st ! ?k ! j) + 1)"
        if j: "j < nat (E_lines g)" for j
        unfolding c' using kk(1,2) l j old [OF j]
        by (simp add: nth_access_row incr_long_below)
      have z: "lastUsed (cache st' ! ?k ! j) = 0 \<longleftrightarrow> j = a"
        if j: "j < nat (E_lines g)" for j
        using lu [OF j] old [OF j] by auto
      have b: "0 \<le> lastUsed (cache st' ! ?k ! j) \<and> lastUsed (cache st' ! ?k ! j) < 2 ^ 63"
        if j: "j < nat (E_lines g)" for j
        using lu [OF j] old [OF j] by auto
      from lu z b show ?thesis by blast
    qed
    from ud ex each show ?thesis by blast
  qed
  from one two show ?thesis by blast
qed

theorem access_resets_one_line_and_ages_the_rest_witness:
  "main ex_free_config (\<lambda>i j. 0) [(CHR ''L'', 5, 1), (CHR ''L'', 7, 1)] = Inr ex_free_next
   \<and> decode ex_free_config 7 = Inr (0, 7)
   \<and> accessed_line ex_free_config 0 7 (cache ex_free_next) 1
   \<and> updateData ex_free_config 7 (CHR ''L'') ex_free_next = Inr ex_free_hit
   \<and> lastUsed (cache ex_free_hit ! 0 ! 0) = lastUsed (cache ex_free_next ! 0 ! 0) + 1
   \<and> lastUsed (cache ex_free_hit ! 0 ! 1) = 0
   \<and> lastUsed (cache ex_free_hit ! 0 ! 2) = lastUsed (cache ex_free_next ! 0 ! 2) + 1"
proof -
  have reach: "main ex_free_config (\<lambda>i j. 0) [(CHR ''L'', 5, 1), (CHR ''L'', 7, 1)] = Inr ex_free_next"
    by code_simp
  have few: "int (count_accesses [(CHR ''L'', 5, 1), (CHR ''L'', 7 :: 64 word, 1 :: int)]) < 2 ^ 63 - 1"
    by simp
  have dec: "decode ex_free_config 7 = Inr (0, 7)"
    by code_simp
  have ud: "updateData ex_free_config 7 (CHR ''L'') ex_free_next = Inr ex_free_hit"
    by code_simp
  have n: "nat (E_lines ex_free_config) = 3"
    by (simp add: ex_free_config_def)
  have hit: "\<exists>j<nat (E_lines ex_free_config).
      valid (cache ex_free_next ! 0 ! j) = 1 \<and> tag (cache ex_free_next ! 0 ! j) = 7"
    unfolding n by (rule exI [of _ 1]) (simp add: ex_free_next_def)
  have acc: "accessed_line ex_free_config 0 7 (cache ex_free_next) 1"
    unfolding accessed_line_def using hit by (simp add: n) (simp add: ex_free_next_def)
  note th = access_resets_one_line_and_ages_the_rest
      [of _ _ ex_free_config _ "\<lambda>i j. 0" "[(CHR ''L'', 5, 1), (CHR ''L'', 7, 1)]" ex_free_next
          7 0 7 "CHR ''L''", THEN conjunct2, THEN mp, OF conjI [OF reach conjI [OF few dec]]]
  from th obtain st' where ud': "updateData ex_free_config 7 (CHR ''L'') ex_free_next = Inr st'"
    and all: "\<forall>a. accessed_line ex_free_config (unat (0 :: 64 word)) 7 (cache ex_free_next) a \<longrightarrow>
               (\<forall>j<nat (E_lines ex_free_config).
                  lastUsed (cache st' ! unat (0 :: 64 word) ! j)
                    = (if j = a then 0 else lastUsed (cache ex_free_next ! unat (0 :: 64 word) ! j) + 1))
             \<and> (\<forall>j<nat (E_lines ex_free_config).
                  lastUsed (cache st' ! unat (0 :: 64 word) ! j) = 0 \<longleftrightarrow> j = a)
             \<and> (\<forall>j<nat (E_lines ex_free_config).
                  0 \<le> lastUsed (cache st' ! unat (0 :: 64 word) ! j)
                  \<and> lastUsed (cache st' ! unat (0 :: 64 word) ! j) < 2 ^ 63)"
    by (elim exE conjE)
  from ud ud' have st': "st' = ex_free_hit" by simp
  have acc0: "accessed_line ex_free_config (unat (0 :: 64 word)) 7 (cache ex_free_next) 1"
    using acc by simp
  from all [rule_format, OF acc0, THEN conjunct1]
  have r: "\<forall>j<3. lastUsed (cache ex_free_hit ! 0 ! j)
                    = (if j = 1 then 0 else lastUsed (cache ex_free_next ! 0 ! j) + 1)"
    unfolding n st' by simp
  have "lastUsed (cache ex_free_hit ! 0 ! 0) = lastUsed (cache ex_free_next ! 0 ! 0) + 1"
    "lastUsed (cache ex_free_hit ! 0 ! 1) = 0"
    "lastUsed (cache ex_free_hit ! 0 ! 2) = lastUsed (cache ex_free_next ! 0 ! 2) + 1"
    using r by simp_all
  with reach dec acc ud show ?thesis by simp
qed

text \<open>
  C5, as the code has it. At every point of a run that starts from the cache built by
  \<open>init\<close>, that is after every prefix of the trace, \<open>dirty_bytes\<close> is the sum of the block
  size over the valid dirty lines, taken modulo \<open>2^64\<close> since the counter is an
  \<open>unsigned long\<close>; it lies between \<open>0\<close> and \<open>E * 2^s * 2^b\<close>; and it is the sum itself
  whenever \<open>E * 2^s * 2^b\<close> is below \<open>2^64\<close>.
\<close>

theorem dirty_bytes_accounting:
  assumes "main g junk (before @ rest) = Inr st_end"
  shows "\<exists>st. main g junk before = Inr st
       \<and> unat (dirty_bytes (stats st)) = dirty_total g (cache st) mod 2 ^ 64
       \<and> unat (dirty_bytes (stats st))
           \<le> nat (E_lines g) * 2 ^ nat (s_bits g) * 2 ^ nat (b_bits g)
       \<and> (nat (E_lines g) * 2 ^ nat (s_bits g) * 2 ^ nat (b_bits g) < 2 ^ 64 \<longrightarrow>
            unat (dirty_bytes (stats st)) = dirty_total g (cache st))"
proof -
  from main_prefix [OF assms] obtain st where st: "main g junk before = Inr st" ..
  have inv: "sim_inv g st" by (rule main_InrD(1) [OF st])
  then have db: "dirty_bytes (stats st) = of_nat (dirty_total g (cache st))"
    and le: "dirty_total g (cache st) \<le> nat (E_lines g) * 2 ^ nat (s_bits g) * 2 ^ nat (b_bits g)"
    by (simp_all add: sim_inv_def dirty_total_le)
  have m: "unat (dirty_bytes (stats st)) = dirty_total g (cache st) mod 2 ^ 64"
    unfolding db by (simp add: unat_of_nat)
  have "dirty_total g (cache st) mod 2 ^ 64 \<le> dirty_total g (cache st)"
    by (rule mod_less_eq_dividend)
  with m le have b: "unat (dirty_bytes (stats st))
           \<le> nat (E_lines g) * 2 ^ nat (s_bits g) * 2 ^ nat (b_bits g)"
    by linarith
  have "unat (dirty_bytes (stats st)) = dirty_total g (cache st)"
    if "nat (E_lines g) * 2 ^ nat (s_bits g) * 2 ^ nat (b_bits g) < 2 ^ 64"
    using that le m by simp
  with st m b show ?thesis by blast
qed

theorem dirty_bytes_accounting_witness:
  "main ex_store_config (\<lambda>i j. 0) ([(CHR ''S'', 0, 1)] @ [(CHR ''S'', 16, 1)])
     = Inr \<lparr>cache = [[\<lparr>valid = 1, tag = 1, dirty = 1, lastUsed = 0\<rparr>]],
            stats = \<lparr>hits = 0, misses = 2, evictions = 1, dirty_bytes = 16, dirty_evictions = 16\<rparr>\<rparr>
   \<and> main ex_store_config (\<lambda>i j. 0) [(CHR ''S'', 0, 1)] = Inr ex_store_state
   \<and> unat (dirty_bytes (stats ex_store_state)) = dirty_total ex_store_config (cache ex_store_state)
   \<and> dirty_total ex_store_config (cache ex_store_state) = 16"
proof -
  have whole: "main ex_store_config (\<lambda>i j. 0) ([(CHR ''S'', 0, 1)] @ [(CHR ''S'', 16, 1)])
     = Inr \<lparr>cache = [[\<lparr>valid = 1, tag = 1, dirty = 1, lastUsed = 0\<rparr>]],
            stats = \<lparr>hits = 0, misses = 2, evictions = 1, dirty_bytes = 16, dirty_evictions = 16\<rparr>\<rparr>"
    by code_simp
  have part: "main ex_store_config (\<lambda>i j. 0) [(CHR ''S'', 0, 1)] = Inr ex_store_state"
    by code_simp
  have cap: "nat (E_lines ex_store_config) * 2 ^ nat (s_bits ex_store_config)
      * 2 ^ nat (b_bits ex_store_config) < (2 ^ 64 :: nat)"
    by (simp add: ex_store_config_def)
  have tot: "dirty_total ex_store_config (cache ex_store_state) = 16"
    by (simp add: dirty_total_def is_dirty_def ex_store_config_def ex_store_state_def)
  from dirty_bytes_accounting [OF whole] part cap
  have "unat (dirty_bytes (stats ex_store_state)) = dirty_total ex_store_config (cache ex_store_state)"
    by auto
  with whole part tot show ?thesis by simp
qed

text \<open>
  C5 as stated fails for \<open>s = 0\<close>, \<open>E = 2\<close>, \<open>b = 63\<close>: after stores to the addresses \<open>0\<close> and
  \<open>0xFFFFFFFFFFFFFFFF\<close> both lines of the set are valid and dirty, the sum of their
  block sizes is \<open>2^64\<close>, and \<open>dirty_bytes\<close> has wrapped around to \<open>0\<close>.
\<close>

theorem dirty_bytes_wraps:
  "main ex_wrap_config (\<lambda>i j. 0) [(CHR ''S'', 0, 1), (CHR ''S'', 0xFFFFFFFFFFFFFFFF, 1)]
     = Inr ex_wrap_state
   \<and> dirty_bytes (stats ex_wrap_state) = 0
   \<and> dirty_total ex_wrap_config (cache ex_wrap_state) = 2 ^ 64
   \<and> unat (dirty_bytes (stats ex_wrap_state)) \<noteq> dirty_total ex_wrap_config (cache ex_wrap_state)"
proof -
  have "main ex_wrap_config (\<lambda>i j. 0) [(CHR ''S'', 0, 1), (CHR ''S'', 0xFFFFFFFFFFFFFFFF, 1)]
     = Inr ex_wrap_state"
    by code_simp
  moreover have "dirty_total ex_wrap_config (cache ex_wrap_state) = 2 ^ 64"
    by (simp add: dirty_total_def is_dirty_def ex_wrap_config_def ex_wrap_state_def)
  moreover have "dirty_bytes (stats ex_wrap_state) = 0"
    by (simp add: ex_wrap_state_def)
  ultimately show ?thesis by simp
qed

text \<open>
  C6, as the code has it. For \<open>0 \<le> s \<le> 30\<close>, \<open>0 \<le> b\<close> and \<open>s + b \<le> 63\<close> every expression
  of the decoder is defined. The set index is \<open>(addr >> b) & (2^s - 1)\<close> with the logical
  shift, for every address. The tag is the arithmetic shift of the \<open>long\<close> address by
  \<open>s + b\<close>; it is the logical shift whenever the address is not negative as a \<open>long\<close>,
  that is below \<open>2^63\<close>.
\<close>

theorem decode_defined_geometry:
  assumes "0 \<le> s_bits g" and "s_bits g \<le> 30" and "0 \<le> b_bits g"
    and "s_bits g + b_bits g \<le> 63"
  shows "decode g addr =
           Inr (drop_bit (nat (b_bits g)) addr AND (2 ^ nat (s_bits g) - 1),
                signed_drop_bit (nat (s_bits g + b_bits g)) addr)
       \<and> (0 \<le> sint addr \<longrightarrow>
            decode g addr =
              Inr (drop_bit (nat (b_bits g)) addr AND (2 ^ nat (s_bits g) - 1),
                   drop_bit (nat (s_bits g + b_bits g)) addr))"
proof -
  have "nat (s_bits g) + nat (b_bits g) \<le> 63"
    using assms by arith
  then have "signed_drop_bit (nat (b_bits g)) addr AND mask (nat (s_bits g))
      = drop_bit (nat (b_bits g)) addr AND mask (nat (s_bits g))"
    by (rule signed_drop_bit_and_mask)
  then have "decode g addr =
           Inr (drop_bit (nat (b_bits g)) addr AND (2 ^ nat (s_bits g) - 1),
                signed_drop_bit (nat (s_bits g + b_bits g)) addr)"
    using assms by (simp add: decode_eq mask_eq_exp_minus_1)
  then show ?thesis
    by (simp add: signed_drop_bit_nonneg)
qed

theorem decode_defined_geometry_witness:
  "0 \<le> sint (0x1234 :: 64 word) \<and> decode ex_decode_config 0x1234 = Inr (3, 0x12)"
proof -
  have h: "0 \<le> s_bits ex_decode_config" "s_bits ex_decode_config \<le> 30"
    "0 \<le> b_bits ex_decode_config" "s_bits ex_decode_config + b_bits ex_decode_config \<le> 63"
    by (simp_all add: ex_decode_config_def)
  have a: "0 \<le> sint (0x1234 :: 64 word)" by simp
  have "decode ex_decode_config 0x1234 =
      Inr (drop_bit (nat (b_bits ex_decode_config)) 0x1234 AND (2 ^ nat (s_bits ex_decode_config) - 1),
           drop_bit (nat (s_bits ex_decode_config + b_bits ex_decode_config)) 0x1234)"
    using decode_defined_geometry [OF h, of "0x1234"] a by blast
  then show ?thesis
    using a by (simp add: ex_decode_config_def)
qed

text \<open>
  C6 as stated fails at three inputs. With \<open>s = 0\<close>, \<open>b = 1\<close> the address \<open>2^63\<close>, which is
  negative as a \<open>long\<close>, gets the tag \<open>0xC000000000000000\<close>, while the logical shift gives
  \<open>0x4000000000000000\<close>. With \<open>s = 31\<close> the mask \<open>1 << s\<close> and with \<open>s + b = 64\<close> the shift
  \<open>addr >> (s + b)\<close> are undefined, although \<open>parseArgument\<close> accepts both geometries.
\<close>

theorem decode_not_logical_shift:
  "decode ex_signed_config 0x8000000000000000 = Inr (0, 0xC000000000000000)
   \<and> drop_bit (nat (s_bits ex_signed_config + b_bits ex_signed_config)) (0x8000000000000000 :: 64 word)
       = 0x4000000000000000
   \<and> decode ex_signed_config 0x8000000000000000 \<noteq>
       Inr (drop_bit (nat (b_bits ex_signed_config)) 0x8000000000000000
              AND (2 ^ nat (s_bits ex_signed_config) - 1),
            drop_bit (nat (s_bits ex_signed_config + b_bits ex_signed_config)) 0x8000000000000000)
   \<and> parseArgument ex_wide_config = Inr ex_wide_config
   \<and> decode ex_wide_config 0x10 = Inl UndefinedShift
   \<and> parseArgument ex_full_width_config = Inr ex_full_width_config
   \<and> decode ex_full_width_config 0x10 = Inl UndefinedShift"
  by (simp add: decode_eq parseArgument_def ex_signed_config_def ex_wide_config_def
      ex_full_width_config_def)

text \<open>
  C7. \<open>parseArgument\<close> accepts \<open>s = 1\<close>, \<open>b = 63\<close>. The decoder has no branch for
  \<open>s + b = 64\<close>: it evaluates \<open>addr >> 64\<close> on a 64-bit \<open>long\<close>, which is undefined, and so
  is the run on a trace of one load.
\<close>

theorem full_width_shift_unguarded:
  "parseArgument ex_full_width_config = Inr ex_full_width_config
   \<and> s_bits ex_full_width_config + b_bits ex_full_width_config = 64
   \<and> shr_long 0 (s_bits ex_full_width_config + b_bits ex_full_width_config) = Inl UndefinedShift
   \<and> decode ex_full_width_config 0 = Inl UndefinedShift
   \<and> main ex_full_width_config (\<lambda>i j. 0) [(CHR ''L'', 0, 1)] = Inl UndefinedShift"
  by (simp add: decode_eq parseArgument_def shr_long_def main_def init_def updateData_def
      ex_full_width_config_def)

text \<open>
  C8. After a run over any trace, \<open>hits + misses\<close> is the number of load and store records
  of the trace; the sum is taken in \<open>unsigned long\<close>, and it is the number itself for every
  trace of fewer than \<open>2^64\<close> such records. One load or store record adds one to exactly one
  of \<open>hits\<close> and \<open>misses\<close> and leaves the other unchanged. A record with any other
  operation leaves the cache and the statistics as they are.
\<close>

theorem hits_plus_misses_counts_accesses:
  "(main g junk trace = Inr st \<longrightarrow>
      hits (stats st) + misses (stats st) = of_nat (count_accesses trace)
    \<and> (count_accesses trace < 2 ^ 64 \<longrightarrow>
          unat (hits (stats st)) + unat (misses (stats st)) = count_accesses trace))
   \<and> ((operation = CHR ''L'' \<or> operation = CHR ''S'') \<and> run g [(operation, addr, sz)] st1 = Inr st2 \<longrightarrow>
        hits (stats st2) = hits (stats st1) + 1 \<and> misses (stats st2) = misses (stats st1)
      \<or> hits (stats st2) = hits (stats st1) \<and> misses (stats st2) = misses (stats st1) + 1)
   \<and> (other \<noteq> CHR ''L'' \<and> other \<noteq> CHR ''S'' \<longrightarrow> run g [(other, addr, sz)] st1 = Inr st1)"
proof -
  have a: "hits (stats st) + misses (stats st) = of_nat (count_accesses trace)
    \<and> (count_accesses trace < 2 ^ 64 \<longrightarrow>
          unat (hits (stats st)) + unat (misses (stats st)) = count_accesses trace)"
    if "main g junk trace = Inr st"
  proof -
    from that obtain c where r: "run g trace \<lparr>cache = c, stats = stats0\<rparr> = Inr st"
      by (rule main_run)
    show ?thesis
      using run_counters_word [OF r] run_counters_nat [OF r] by (simp add: stats0_def)
  qed
  have b: "hits (stats st2) = hits (stats st1) + 1 \<and> misses (stats st2) = misses (stats st1)
      \<or> hits (stats st2) = hits (stats st1) \<and> misses (stats st2) = misses (stats st1) + 1"
    if "operation = CHR ''L'' \<or> operation = CHR ''S''" "run g [(operation, addr, sz)] st1 = Inr st2"
  proof -
    from that have "updateData g addr operation st1 = Inr st2"
      by (auto split: sum.splits)
    then show ?thesis by (rule updateData_counters)
  qed
  have c: "run g [(other, addr, sz)] st1 = Inr st1" if "other \<noteq> CHR ''L'' \<and> other \<noteq> CHR ''S''"
    using that by simp
  from a b c show ?thesis by blast
qed

theorem hits_plus_misses_counts_accesses_witness:
  "main ex_direct_config (\<lambda>i j. 0) ex_mixed_trace = Inr ex_mixed_result
   \<and> count_accesses ex_mixed_trace = 2
   \<and> unat (hits (stats ex_mixed_result)) + unat (misses (stats ex_mixed_result))
       = count_accesses ex_mixed_trace"
proof -
  have r: "main ex_direct_config (\<lambda>i j. 0) ex_mixed_trace = Inr ex_mixed_result"
    by code_simp
  have n: "count_accesses ex_mixed_trace = 2"
    by (simp add: ex_mixed_trace_def)
  have "unat (hits (stats ex_mixed_result)) + unat (misses (stats ex_mixed_result))
      = count_accesses ex_mixed_trace"
    using hits_plus_misses_counts_accesses
      [of ex_direct_config "\<lambda>i j. 0" ex_mixed_trace ex_mixed_result]
      r n by simp
  with r n show ?thesis by simp
qed

text \<open>
  C9. When the set holds an invalid line and \<open>i\<close> is the lowest index of one, the loop of
  \<open>updateCache\<close> installs at line \<open>i\<close>: it reports that the set is not full and leaves the
  line valid, with the new tag, clean and with \<open>lastUsed = 0\<close>, every other line aged by
  one and the statistics untouched. When the access missed, \<open>updateData\<close> as a whole counts
  the miss and no eviction; the installed line is dirty at the end exactly for a store.
\<close>

theorem miss_installs_in_first_invalid_line:
  fixes g :: config and st :: sim and operation :: char
  assumes "decode g addr = Inr (si, t)"
    and "unat si < length (cache st)" and "length (cache st ! unat si) = nat (E_lines g)"
    and "\<forall>j<nat (E_lines g).
           \<not> (valid (cache st ! unat si ! j) = 1 \<and> tag (cache st ! unat si ! j) = t)"
    and "i < nat (E_lines g)" and "valid (cache st ! unat si ! i) = 0"
    and "\<forall>j<i. valid (cache st ! unat si ! j) \<noteq> 0"
  defines "k \<equiv> unat si"
  shows "updateCache_install g k t st =
      (False, i,
       \<lparr>cache = (cache st)[k := access_row i \<lparr>valid = 1, tag = t, dirty = 0, lastUsed = 0\<rparr>
                                   (cache st ! k)],
        stats = stats st\<rparr>)
    \<and> updateData g addr operation st =
      Inr \<lparr>cache = (cache st)[k := access_row i
             \<lparr>valid = 1, tag = t, dirty = (if operation = CHR ''S'' then 1 else 0), lastUsed = 0\<rparr>
             (cache st ! k)],
           stats = \<lparr>hits = hits (stats st),
                    misses = misses (stats st) + 1,
                    evictions = evictions (stats st),
                    dirty_bytes = dirty_bytes (stats st)
                                  + (if operation = CHR ''S'' then blockSize g else 0),
                    dirty_evictions = dirty_evictions (stats st)\<rparr>\<rparr>"
  unfolding k_def
  using updateCache_install_free [OF assms(2,3,5,6,7)] updateData_free [OF assms(1-7)]
  by simp

theorem miss_installs_in_first_invalid_line_witness:
  "updateCache_install ex_free_config 0 7 ex_free_state =
      (False, 1,
       \<lparr>cache = [[\<lparr>valid = 1, tag = 5, dirty = 0, lastUsed = 1\<rparr>,
                  \<lparr>valid = 1, tag = 7, dirty = 0, lastUsed = 0\<rparr>,
                  \<lparr>valid = 0, tag = 0, dirty = 0, lastUsed = 2\<rparr>]],
        stats = \<lparr>hits = 0, misses = 1, evictions = 0, dirty_bytes = 0, dirty_evictions = 0\<rparr>\<rparr>)
   \<and> updateData ex_free_config 7 (CHR ''L'') ex_free_state =
      Inr \<lparr>cache = [[\<lparr>valid = 1, tag = 5, dirty = 0, lastUsed = 1\<rparr>,
                     \<lparr>valid = 1, tag = 7, dirty = 0, lastUsed = 0\<rparr>,
                     \<lparr>valid = 0, tag = 0, dirty = 0, lastUsed = 2\<rparr>]],
           stats = \<lparr>hits = 0, misses = 2, evictions = 0, dirty_bytes = 0, dirty_evictions = 0\<rparr>\<rparr>"
proof -
  have dec: "decode ex_free_config 7 = Inr (0, 7)"
    by (simp add: decode_eq ex_free_config_def)
  have k: "unat (0 :: 64 word) < length (cache ex_free_state)"
    by (simp add: ex_free_state_def)
  have len: "length (cache ex_free_state ! unat (0 :: 64 word)) = nat (E_lines ex_free_config)"
    by (simp add: ex_free_state_def ex_free_config_def)
  have n: "nat (E_lines ex_free_config) = 3"
    by (simp add: ex_free_config_def)
  have miss: "\<forall>j<nat (E_lines ex_free_config).
      \<not> (valid (cache ex_free_state ! unat (0 :: 64 word) ! j) = 1
         \<and> tag (cache ex_free_state ! unat (0 :: 64 word) ! j) = 7)"
    unfolding n by (simp add: ex_free_state_def less_Suc_eq numeral_3_eq_3)
  have i: "1 < nat (E_lines ex_free_config)"
    by (simp add: n)
  have inv: "valid (cache ex_free_state ! unat (0 :: 64 word) ! 1) = 0"
    by (simp add: ex_free_state_def)
  have first: "\<forall>j<1. valid (cache ex_free_state ! unat (0 :: 64 word) ! j) \<noteq> 0"
    by (simp add: ex_free_state_def)
  show ?thesis
    using miss_installs_in_first_invalid_line [OF dec k len miss i inv first, of "CHR ''L''"]
    by simp (simp add: ex_free_state_def access_row_def upt_conv_Cons incr_long_def)
qed

text \<open>
  C10. Let \<open>st\<close> be the state at any point of a run. One more load or store changes no set
  but the one its address selects: the number of sets stays the same and every other set
  keeps all its lines as they are. A line that is valid in \<open>st\<close> is valid after any further
  part of the run.
\<close>

theorem access_changes_one_set:
  assumes "main g junk before = Inr st"
  shows "(decode g addr = Inr (si, t) \<and> updateData g addr operation st = Inr st' \<longrightarrow>
            length (cache st') = length (cache st)
          \<and> (\<forall>k<length (cache st). k \<noteq> unat si \<longrightarrow> cache st' ! k = cache st ! k))
       \<and> (run g rest st = Inr st_end \<longrightarrow>
            (\<forall>k<2 ^ nat (s_bits g). \<forall>i<nat (E_lines g).
               valid (cache st ! k ! i) = 1 \<longrightarrow> valid (cache st_end ! k ! i) = 1))"
proof -
  have ok: "lines_ok g (cache st)" and E: "0 < E_lines g"
    using main_InrD(1,2) [OF assms] by (simp_all add: sim_inv_def)
  have frame: "length (cache st') = length (cache st)
          \<and> (\<forall>k<length (cache st). k \<noteq> unat si \<longrightarrow> cache st' ! k = cache st ! k)"
    if "decode g addr = Inr (si, t)" "updateData g addr operation st = Inr st'"
    using updateData_shape [OF ok E that(1), of operation] that(2) by auto
  have kept: "\<forall>k<2 ^ nat (s_bits g). \<forall>i<nat (E_lines g).
               valid (cache st ! k ! i) = 1 \<longrightarrow> valid (cache st_end ! k ! i) = 1"
    if "run g rest st = Inr st_end"
    using valid_kept_run [OF ok E that] by blast
  from frame kept show ?thesis by blast
qed

theorem access_changes_one_set_witness:
  "main ex_two_sets_config (\<lambda>i j. 0) [(CHR ''L'', 0, 1)] = Inr ex_two_sets_state
   \<and> decode ex_two_sets_config 1 = Inr (1, 0)
   \<and> updateData ex_two_sets_config 1 (CHR ''L'') ex_two_sets_state = Inr ex_two_sets_next
   \<and> cache ex_two_sets_next ! 0 = cache ex_two_sets_state ! 0
   \<and> run ex_two_sets_config [(CHR ''L'', 2, 1)] ex_two_sets_state = Inr ex_two_sets_end
   \<and> valid (cache ex_two_sets_state ! 0 ! 0) = 1
   \<and> valid (cache ex_two_sets_end ! 0 ! 0) = 1"
proof -
  have reach: "main ex_two_sets_config (\<lambda>i j. 0) [(CHR ''L'', 0, 1)] = Inr ex_two_sets_state"
    by code_simp
  have dec: "decode ex_two_sets_config 1 = Inr (1, 0)"
    by code_simp
  have ud: "updateData ex_two_sets_config 1 (CHR ''L'') ex_two_sets_state = Inr ex_two_sets_next"
    by code_simp
  have rn: "run ex_two_sets_config [(CHR ''L'', 2, 1)] ex_two_sets_state = Inr ex_two_sets_end"
    by code_simp
  have v: "valid (cache ex_two_sets_state ! 0 ! 0) = 1"
    by (simp add: ex_two_sets_state_def)
  note th = access_changes_one_set [OF reach,
      of 1 1 0 "CHR ''L''" ex_two_sets_next "[(CHR ''L'', 2, 1)]" ex_two_sets_end]
  have "cache ex_two_sets_next ! 0 = cache ex_two_sets_state ! 0"
    using th dec ud by (simp add: ex_two_sets_state_def)
  moreover have "valid (cache ex_two_sets_end ! 0 ! 0) = 1"
    using th rn v by (simp add: ex_two_sets_config_def)
  ultimately show ?thesis
    using reach dec ud rn v by simp
qed

end
